theory Spec2Isabelle
  imports Complex_Main "HOL-Library.AList" "HOL-Library.Monad_Syntax" "HOL-Library.Log_Nat"
begin

section \<open>Numbers, time values and rounding\<close>

text \<open>
  The route handler \<^verbatim>\<open>src/app/api/btc-price/route.ts\<close> computes with JavaScript numbers.
  The prices and realized-price values of the feeds are finite doubles, modelled as the
  reals they denote (a NaN or an infinite feed value is outside the model).  The products
  of the band fields, such as \<^verbatim>\<open>rp * 0.8\<close>, are IEEE 754 double products: the exact
  product rounded to the nearest double and, on overflow, an infinity (\<open>toDouble\<close> below).
  \<^verbatim>\<open>Math.round\<close> and the comparisons are exact.
  Timestamps are integers: milliseconds for the valuation feed and for \<^verbatim>\<open>Date.now()\<close>,
  unix seconds for the historical price feed.  A Date built from a timestamp is valid
  only for an ECMAScript time value, \<open>timeOk\<close>; the day truncation below is what
  \<^verbatim>\<open>setUTCHours(0, 0, 0, 0)\<close> computes on such a value.  Outside that range the Date
  is invalid and \<^verbatim>\<open>getTime()\<close> is NaN.  A query of \<^verbatim>\<open>lookupRP\<close> may be any integer (its
  day is \<open>None\<close> for NaN).
\<close>

type_synonym number = real

definition msPerDay :: int where
  "msPerDay = 86400000"

definition timeOk :: "int \<Rightarrow> bool" where
  "timeOk t \<longleftrightarrow> - 8640000000000000 \<le> t \<and> t \<le> 8640000000000000"

text \<open>\<^verbatim>\<open>const day = new Date(ts); day.setUTCHours(0, 0, 0, 0); day.getTime()\<close>\<close>

definition utcMidnight :: "int \<Rightarrow> int" where
  "utcMidnight ts = (ts div msPerDay) * msPerDay"

text \<open>The same on any integer: \<open>None\<close> is the NaN of an invalid Date.\<close>

definition startOfDay :: "int \<Rightarrow> int option" where
  "startOfDay ts = (if timeOk ts then Some (utcMidnight ts) else None)"

text \<open>\<^verbatim>\<open>Math.round\<close>: the nearest integer, a tie going up.\<close>

definition Math_round :: "number \<Rightarrow> int" where
  "Math_round x = \<lfloor>x + 1 / 2\<rfloor>"

text \<open>
  IEEE 754 binary64, the numbers of JavaScript.  A finite double is \<open>\<plusminus> m * 2^q\<close> with
  \<open>m < 2^53\<close> and \<open>- 1074 \<le> q \<le> 971\<close>.  An arithmetic operation returns the exact result
  rounded to the nearest double, a tie going to the double with the even \<open>m\<close>; a result
  whose magnitude is at least \<open>2^1024 - 2^970\<close>, half a step above the largest double,
  becomes an infinity.
\<close>

datatype 'a orInfinity = Num 'a | PosInfinity | NegInfinity

text \<open>The integer nearest to \<open>m\<close>, a tie going to the even one.\<close>

definition roundHalfEven :: "real \<Rightarrow> int" where
  "roundHalfEven m =
     (let f = \<lfloor>m\<rfloor>; r = m - of_int f in
      if r < 1 / 2 then f else if 1 / 2 < r then f + 1 else if even f then f else f + 1)"

text \<open>The exponent \<open>e\<close> with \<open>2^e \<le> a < 2^(e+1)\<close>, for \<open>a > 0\<close>.\<close>

definition binaryExponent :: "real \<Rightarrow> int" where
  "binaryExponent a = (if 1 \<le> a then bitlen \<lfloor>a\<rfloor> - 1 else - bitlen (\<lceil>1 / a\<rceil> - 1))"

text \<open>
  The double nearest to \<open>x\<close>, were the exponent unbounded above: around \<open>x\<close> the doubles
  are \<open>2^(e-52)\<close> apart, \<open>e\<close> the exponent of \<open>\<bar>x\<bar>\<close>, and \<open>2^(-1074)\<close> apart below
  \<open>2^(-1022)\<close>.  A numeric literal such as \<^verbatim>\<open>0.8\<close> denotes \<open>roundToDouble 0.8\<close>.
\<close>

definition roundToDouble :: "real \<Rightarrow> real" where
  "roundToDouble x =
     (if x = 0 then 0
      else
        (let q = 2 powi (max (binaryExponent \<bar>x\<bar>) (- 1022) - 52)
         in sgn x * of_int (roundHalfEven (\<bar>x\<bar> / q)) * q))"

definition overflowThreshold :: real where
  "overflowThreshold = 2 ^ 1024 - 2 ^ 970"

definition toDouble :: "real \<Rightarrow> real orInfinity" where
  "toDouble x =
     (if overflowThreshold \<le> \<bar>x\<bar> then (if 0 < x then PosInfinity else NegInfinity)
      else Num (roundToDouble x))"

text \<open>\<^verbatim>\<open>x * y\<close> on two finite doubles.\<close>

definition jsTimes :: "number \<Rightarrow> number \<Rightarrow> number orInfinity" where
  "jsTimes x y = toDouble (x * y)"

text \<open>\<^verbatim>\<open>Math.round\<close> on a product: an infinity is returned as it is.\<close>

fun Math_round_ext :: "number orInfinity \<Rightarrow> int orInfinity" where
  "Math_round_ext (Num x) = Num (Math_round x)"
| "Math_round_ext PosInfinity = PosInfinity"
| "Math_round_ext NegInfinity = NegInfinity"

text \<open>The order of numbers on integers and infinities: \<^verbatim>\<open>a < b\<close> and \<^verbatim>\<open>a <= b\<close>.\<close>

fun lessExt :: "int orInfinity \<Rightarrow> int orInfinity \<Rightarrow> bool" where
  "lessExt (Num a) (Num b) = (a < b)"
| "lessExt NegInfinity b = (b \<noteq> NegInfinity)"
| "lessExt a PosInfinity = (a \<noteq> PosInfinity)"
| "lessExt a b = False"

definition leExt :: "int orInfinity \<Rightarrow> int orInfinity \<Rightarrow> bool" where
  "leExt a b \<longleftrightarrow> a = b \<or> lessExt a b"

text \<open>
  \<^verbatim>\<open>Date.UTC(year, month, date)\<close> as ECMAScript defines it (MakeDay, DayFromYear), for a
  month index within 0..11; the result is in milliseconds.
\<close>

definition DayFromYear :: "int \<Rightarrow> int" where
  "DayFromYear y =
     365 * (y - 1970) + (y - 1969) div 4 - (y - 1901) div 100 + (y - 1601) div 400"

definition InLeapYear :: "int \<Rightarrow> bool" where
  "InLeapYear y \<longleftrightarrow> (y mod 4 = 0 \<and> y mod 100 \<noteq> 0) \<or> y mod 400 = 0"

definition daysBeforeMonth :: "bool \<Rightarrow> nat \<Rightarrow> int" where
  "daysBeforeMonth leap mn =
     [0, 31, 59, 90, 120, 151, 181, 212, 243, 273, 304, 334] ! mn
       + (if leap \<and> 2 \<le> mn then 1 else 0)"

definition Date_UTC :: "int \<Rightarrow> nat \<Rightarrow> int \<Rightarrow> int" where
  "Date_UTC year month date' =
     (let yr = (if 0 \<le> year \<and> year \<le> 99 then 1900 + year else year)
      in (DayFromYear yr + daysBeforeMonth (InLeapYear yr) month + date' - 1) * msPerDay)"

section \<open>Day-indexed series: \<^verbatim>\<open>buildDayMap\<close> and \<^verbatim>\<open>lookupRP\<close>\<close>

text \<open>
  A JavaScript \<^verbatim>\<open>Map<number, number>\<close> keeps its keys in insertion order, and
  \<^verbatim>\<open>map.set\<close> on a key already there overwrites the value in place.  That is an
  association list under \<open>AList.update\<close>; \<^verbatim>\<open>map.get\<close> is \<open>map_of\<close>.

  The keys of a day map are integers: \<open>buildDayMap\<close> is the function of the source on a
  feed whose timestamps are all time values (\<open>timeOk\<close>).  For any other timestamp the
  source stores the value under the key NaN, and the order in which
  \<^verbatim>\<open>sort((a, b) => a - b)\<close> leaves an array that holds NaN is left to the implementation
  by ECMAScript.  Such feeds are outside the model: the statements below about the
  entries of a day map assume \<open>timeOk\<close> of the timestamps of its feed.
\<close>

type_synonym dayMap = "(int \<times> number) list"

definition buildDayMap :: "(int \<times> number) list \<Rightarrow> dayMap" where
  "buildDayMap raw = foldl (\<lambda>m (ts, val). AList.update (utcMidnight ts) val m) [] raw"

text \<open>\<^verbatim>\<open>[...map.keys()].sort((a, b) => a - b)\<close>\<close>

definition sortedKeysOf :: "dayMap \<Rightarrow> int list" where
  "sortedKeysOf m = sort (map fst m)"

text \<open>
  \<^verbatim>\<open>x >> 1\<close> converts its operand with ToInt32 (wrapping modulo \<open>2^32\<close> into the signed
  32-bit range) and then shifts arithmetically.
\<close>

definition ToInt32 :: "int \<Rightarrow> int" where
  "ToInt32 n = (let m = n mod 2 ^ 32 in if 2 ^ 31 \<le> m then m - 2 ^ 32 else m)"

definition sar1 :: "int \<Rightarrow> int" where
  "sar1 n = ToInt32 n div 2"

text \<open>
  \<^verbatim>\<open>sortedKeys[i]\<close>: reading an array outside \<open>0 .. length - 1\<close> does not throw, it
  yields \<^verbatim>\<open>undefined\<close> (here \<open>None\<close>).  A comparison \<^verbatim>\<open><=\<close> with \<^verbatim>\<open>undefined\<close> or NaN on
  either side is false.
\<close>

definition arrayGet :: "'a list \<Rightarrow> int \<Rightarrow> 'a option" where
  "arrayGet xs i = (if 0 \<le> i \<and> i < int (length xs) then Some (xs ! nat i) else None)"

fun leNumber :: "int option \<Rightarrow> int option \<Rightarrow> bool" where
  "leNumber (Some k) (Some d) = (k \<le> d)"
| "leNumber k d = False"

text \<open>
  The \<^verbatim>\<open>while (lo <= hi)\<close> loop of \<^verbatim>\<open>lookupRP\<close>.  Nothing in the loop bounds the number
  of iterations once \<^verbatim>\<open>(lo + hi) >> 1\<close> wraps, so the loop is a partial function: \<open>None\<close>
  is a loop that never exits.  The last argument is a ghost variable, absent from the
  source: the list of the indices at which \<^verbatim>\<open>sortedKeys\<close> has been read, in order.
\<close>

partial_function (option) bsearch ::
  "int list \<Rightarrow> int option \<Rightarrow> int \<Rightarrow> int \<Rightarrow> int \<Rightarrow> int list \<Rightarrow> (int \<times> int list) option" where
  "bsearch sortedKeys dayTs lo hi best probes =
     (if lo \<le> hi then
        (let mid = sar1 (lo + hi) in
         if leNumber (arrayGet sortedKeys mid) dayTs
         then bsearch sortedKeys dayTs (mid + 1) hi mid (probes @ [mid])
         else bsearch sortedKeys dayTs lo (mid - 1) best (probes @ [mid]))
      else Some (best, probes))"

declare bsearch.simps [code]

text \<open>
  \<^verbatim>\<open>lookupRP\<close> returns \<^verbatim>\<open>number | null\<close>, here \<open>number option\<close>; the outer option is
  the loop's.  A day map of the model holds no NaN key (see \<open>buildDayMap\<close>), so
  \<^verbatim>\<open>dayMap.get\<close> of NaN or of \<^verbatim>\<open>undefined\<close> finds nothing, and
  \<^verbatim>\<open>dayMap.get(sortedKeys[best]) ?? null\<close> is null when the key is missing.
\<close>

definition mapGet :: "dayMap \<Rightarrow> int option \<Rightarrow> number option" where
  "mapGet dayMap key = (case key of Some k \<Rightarrow> map_of dayMap k | None \<Rightarrow> None)"

definition lookupRP :: "dayMap \<Rightarrow> int list \<Rightarrow> int \<Rightarrow> number option option" where
  "lookupRP dayMap sortedKeys timestampMs =
     (let dayTs = startOfDay timestampMs in
      case mapGet dayMap dayTs of
        Some exact \<Rightarrow> Some (Some exact)
      | None \<Rightarrow>
          do {
            (best, probes) \<leftarrow> bsearch sortedKeys dayTs 0 (int (length sortedKeys) - 1) (- 1) [];
            Some (if 0 \<le> best then mapGet dayMap (arrayGet sortedKeys best) else None)
          })"

text \<open>The indices of \<^verbatim>\<open>sortedKeys\<close> that one call of \<^verbatim>\<open>lookupRP\<close> reads (ghost).\<close>

definition lookupRP_reads :: "dayMap \<Rightarrow> int list \<Rightarrow> int \<Rightarrow> int list option" where
  "lookupRP_reads dayMap sortedKeys timestampMs =
     (let dayTs = startOfDay timestampMs in
      case mapGet dayMap dayTs of
        Some exact \<Rightarrow> Some []
      | None \<Rightarrow>
          do {
            (best, probes) \<leftarrow> bsearch sortedKeys dayTs 0 (int (length sortedKeys) - 1) (- 1) [];
            Some (if 0 \<le> best then probes @ [best] else probes)
          })"

definition inBounds :: "'a list \<Rightarrow> int \<Rightarrow> bool" where
  "inBounds xs i \<longleftrightarrow> 0 \<le> i \<and> i < int (length xs)"

text \<open>
  In-bounds safety of one call: it returns, and every index at which it read
  \<^verbatim>\<open>sortedKeys\<close> lies within the array.
\<close>

definition allReadsInBounds :: "dayMap \<Rightarrow> int list \<Rightarrow> int \<Rightarrow> bool" where
  "allReadsInBounds dayMap sortedKeys timestampMs =
     (case lookupRP_reads dayMap sortedKeys timestampMs of
        None \<Rightarrow> False
      | Some reads \<Rightarrow> list_all (inBounds sortedKeys) reads)"

section \<open>The route handler \<^verbatim>\<open>GET\<close>\<close>

text \<open>
  The five fetchers are network I/O; \<^verbatim>\<open>GET\<close> is modelled as a function of what they
  returned (\<open>None\<close> for null) and of the clock reading \<^verbatim>\<open>Date.now()\<close>.  The parts of
  its body are named after the locals they compute.  The response fields
  \<^verbatim>\<open>updatedAt\<close>, \<^verbatim>\<open>source\<close> and \<^verbatim>\<open>priceNote\<close> (a second clock reading and two string
  constants) are left out, and \<^verbatim>\<open>latestRPDate\<close> is kept as the time value that
  \<^verbatim>\<open>toISOString\<close> renders.  A band field of a record is an integer or, when its
  product overflowed, an infinity (which the JSON encoding of the response writes as
  null).
\<close>

record CompositeRecord =
  date :: int
  price :: int
  rp :: int
  rp_0_8 :: "int orInfinity"
  rp_1_25 :: "int orInfinity"
  rp_1_7 :: "int orInfinity"
  rp_2_4 :: "int orInfinity"
  rp_3_2 :: "int orInfinity"
  sth_rp :: "int option"
  lth_rp :: "int option"

record response =
  data :: "CompositeRecord list"
  latestRP :: int
  latestRPDate :: int
  latestSTH :: "int option"
  latestLTH :: "int option"
  latestPrice :: int
  dataPoints :: nat

text \<open>An error response: the \<^verbatim>\<open>error\<close> message and the HTTP status.\<close>

type_synonym failure = "string \<times> nat"

record series =
  rpMap :: dayMap
  rpKeys :: "int list"
  sthMap :: "dayMap option"
  sthKeys :: "int list option"
  lthMap :: "dayMap option"
  lthKeys :: "int list option"

text \<open>\<^verbatim>\<open>raw && raw.length > 0 ? buildDayMap(raw) : null\<close>\<close>

definition cohortMap :: "(int \<times> number) list option \<Rightarrow> dayMap option" where
  "cohortMap raw =
     (case raw of
        Some r \<Rightarrow> if 0 < length r then Some (buildDayMap r) else None
      | None \<Rightarrow> None)"

text \<open>\<^verbatim>\<open>map && map.size > 0 ? [...map.keys()].sort((a, b) => a - b) : null\<close>\<close>

definition cohortKeys :: "dayMap option \<Rightarrow> int list option" where
  "cohortKeys m =
     (case m of
        Some m' \<Rightarrow> if 0 < length m' then Some (sortedKeysOf m') else None
      | None \<Rightarrow> None)"

definition buildSeries ::
  "(int \<times> number) list \<Rightarrow> (int \<times> number) list option \<Rightarrow> (int \<times> number) list option \<Rightarrow> series" where
  "buildSeries realizedPriceRaw sthRPRaw lthRPRaw =
     \<lparr> rpMap = buildDayMap realizedPriceRaw,
       rpKeys = sortedKeysOf (buildDayMap realizedPriceRaw),
       sthMap = cohortMap sthRPRaw,
       sthKeys = cohortKeys (cohortMap sthRPRaw),
       lthMap = cohortMap lthRPRaw,
       lthKeys = cohortKeys (cohortMap lthRPRaw) \<rparr>"

text \<open>\<^verbatim>\<open>const startDate = Date.UTC(2018, 0, 1) / 1000\<close>\<close>

definition startDate :: number where
  "startDate = of_int (Date_UTC 2018 0 1) / 1000"

text \<open>\<^verbatim>\<open>historicalPrices.filter((d) => d.x >= startDate && d.y > 0)\<close>; a point is \<open>(x, y)\<close>.\<close>

definition windowed :: "(int \<times> number) list \<Rightarrow> (int \<times> number) list" where
  "windowed historicalPrices =
     filter (\<lambda>d. startDate \<le> of_int (fst d) \<and> 0 < snd d) historicalPrices"

text \<open>\<^verbatim>\<open>filtered.filter((_, i) => i % 4 === 0)\<close>\<close>

definition stride4 :: "'a list \<Rightarrow> 'a list" where
  "stride4 xs = map (nth xs) (filter (\<lambda>i. i mod 4 = 0) [0..<length xs])"

text \<open>\<^verbatim>\<open>filtered[filtered.length - 1]\<close>, undefined on an empty array.\<close>

definition lastHistorical :: "(int \<times> number) list \<Rightarrow> (int \<times> number) option" where
  "lastHistorical filtered = (if filtered = [] then None else Some (last filtered))"

text \<open>
  Lines 171 to 178.  \<^verbatim>\<open>lastHistorical.x\<close> is read only when \<^verbatim>\<open>sampled\<close> is not empty;
  then \<^verbatim>\<open>filtered\<close> is not empty either, so the read of an undefined value (the \<open>None\<close>
  case) cannot happen.
\<close>

definition resample :: "(int \<times> number) list \<Rightarrow> (int \<times> number) list" where
  "resample filtered =
     (let sampled = stride4 filtered in
      if 0 < length sampled then
        (case lastHistorical filtered of
           Some l \<Rightarrow> if fst (last sampled) \<noteq> fst l then sampled @ [l] else sampled
         | None \<Rightarrow> sampled)
      else sampled)"

text \<open>\<^verbatim>\<open>v ? Math.round(v) : null\<close>: null and zero are both falsy.\<close>

definition roundIfTruthy :: "number option \<Rightarrow> int option" where
  "roundIfTruthy v =
     (case v of
        None \<Rightarrow> None
      | Some x \<Rightarrow> if x = 0 then None else Some (Math_round x))"

text \<open>
  The object literal of lines 189 to 200, and again of lines 232 to 243: the two differ
  only in the expressions given for date and price.  \<^verbatim>\<open>Math.round(rp * 0.8)\<close> multiplies
  the realized price as looked up (not the rounded \<^verbatim>\<open>rp\<close> field) by the double that the
  literal denotes, rounds the product to a double and then to an integer.
\<close>

definition compositeRecord ::
  "int \<Rightarrow> number \<Rightarrow> number \<Rightarrow> number option \<Rightarrow> number option \<Rightarrow> CompositeRecord" where
  "compositeRecord dateMs priceVal rpVal sthRP lthRP =
     \<lparr> date = dateMs,
       price = Math_round priceVal,
       rp = Math_round rpVal,
       rp_0_8 = Math_round_ext (jsTimes rpVal (roundToDouble 0.8)),
       rp_1_25 = Math_round_ext (jsTimes rpVal (roundToDouble 1.25)),
       rp_1_7 = Math_round_ext (jsTimes rpVal (roundToDouble 1.7)),
       rp_2_4 = Math_round_ext (jsTimes rpVal (roundToDouble 2.4)),
       rp_3_2 = Math_round_ext (jsTimes rpVal (roundToDouble 3.2)),
       sth_rp = roundIfTruthy sthRP,
       lth_rp = roundIfTruthy lthRP \<rparr>"

text \<open>\<^verbatim>\<open>map && keys ? lookupRP(map, keys, t) : otherwise\<close>\<close>

definition cohortLookup ::
  "dayMap option \<Rightarrow> int list option \<Rightarrow> int \<Rightarrow> number option \<Rightarrow> number option option" where
  "cohortLookup m ks t otherwise =
     (case m of
        Some m' \<Rightarrow> (case ks of Some ks' \<Rightarrow> lookupRP m' ks' t | None \<Rightarrow> Some otherwise)
      | None \<Rightarrow> Some otherwise)"

text \<open>The callback of \<^verbatim>\<open>sampled.map\<close>, lines 181 to 201.\<close>

definition chartPoint :: "series \<Rightarrow> int \<times> number \<Rightarrow> CompositeRecord option" where
  "chartPoint S d =
     (let tsMs = fst d * 1000 in
      do {
        found \<leftarrow> lookupRP (rpMap S) (rpKeys S) tsMs;
        sthRP \<leftarrow> cohortLookup (sthMap S) (sthKeys S) tsMs None;
        lthRP \<leftarrow> cohortLookup (lthMap S) (lthKeys S) tsMs None;
        Some (compositeRecord tsMs (snd d) (case found of Some v \<Rightarrow> v | None \<Rightarrow> 0) sthRP lthRP)
      })"

definition chartData :: "series \<Rightarrow> (int \<times> number) list \<Rightarrow> CompositeRecord list option" where
  "chartData S sampled = those (map (chartPoint S) sampled)"

text \<open>\<^verbatim>\<open>raw && raw.length > 0 ? Math.round(raw[raw.length - 1][1]) : null\<close>\<close>

definition latestCohort :: "(int \<times> number) list option \<Rightarrow> int option" where
  "latestCohort raw =
     (case raw of
        Some r \<Rightarrow> if 0 < length r then Some (Math_round (snd (last r))) else None
      | None \<Rightarrow> None)"

text \<open>\<^verbatim>\<open>livePrice ?? lastHistorical?.y ?? chartData[chartData.length - 1]?.price ?? 0\<close>\<close>

definition currentPrice ::
  "number option \<Rightarrow> (int \<times> number) option \<Rightarrow> CompositeRecord list \<Rightarrow> number" where
  "currentPrice livePrice lastHist records =
     (case livePrice of
        Some p \<Rightarrow> p
      | None \<Rightarrow>
          (case lastHist of
             Some d \<Rightarrow> snd d
           | None \<Rightarrow> if records = [] then 0 else of_int (price (last records))))"

text \<open>The candidate record \<^verbatim>\<open>livePoint\<close>, lines 226 to 243.\<close>

definition livePoint ::
  "series \<Rightarrow> int \<Rightarrow> int option \<Rightarrow> int option \<Rightarrow> number \<Rightarrow> int \<Rightarrow> CompositeRecord option" where
  "livePoint S latestRPv latestSTHv latestLTHv livePrice now =
     do {
       found \<leftarrow> lookupRP (rpMap S) (rpKeys S) now;
       sthRP \<leftarrow> cohortLookup (sthMap S) (sthKeys S) now (map_option of_int latestSTHv);
       lthRP \<leftarrow> cohortLookup (lthMap S) (lthKeys S) now (map_option of_int latestLTHv);
       Some (compositeRecord now livePrice
               (case found of Some v \<Rightarrow> v | None \<Rightarrow> of_int latestRPv) sthRP lthRP)
     }"

text \<open>
  Lines 223 to 250: \<^verbatim>\<open>if (livePrice && chartData.length > 0)\<close>, then append the candidate
  or overwrite the last record.  A live price of zero is falsy.
\<close>

definition reconcile ::
  "series \<Rightarrow> int \<Rightarrow> int option \<Rightarrow> int option \<Rightarrow> number option \<Rightarrow> int
     \<Rightarrow> CompositeRecord list \<Rightarrow> CompositeRecord list option" where
  "reconcile S latestRPv latestSTHv latestLTHv livePrice now records =
     (case livePrice of
        None \<Rightarrow> Some records
      | Some p \<Rightarrow>
          if p \<noteq> 0 \<and> 0 < length records then
            do {
              candidate \<leftarrow> livePoint S latestRPv latestSTHv latestLTHv p now;
              Some (if 12 * 60 * 60 * 1000 < now - date (last records)
                    then records @ [candidate]
                    else records[length records - 1 := candidate])
            }
          else Some records)"

definition rpUnavailable :: failure where
  "rpUnavailable = (''Failed to fetch on-chain realized price data'', 502)"

definition historyUnavailable :: failure where
  "historyUnavailable = (''Failed to fetch historical BTC price data'', 502)"

definition internalError :: failure where
  "internalError = (''Internal server error fetching BTC data'', 500)"

text \<open>
  \<^verbatim>\<open>GET\<close>.  The only statement of the \<^verbatim>\<open>try\<close> block that can throw is
  \<^verbatim>\<open>new Date(latestRPEntry[0]).toISOString()\<close>, a RangeError on an invalid Date; the
  \<^verbatim>\<open>catch\<close> turns it into the status 500 response.  The outer option is \<open>None\<close> when a
  lookup loop does not exit.
\<close>

definition GET ::
  "(int \<times> number) list option \<Rightarrow> (int \<times> number) list option \<Rightarrow> (int \<times> number) list option
     \<Rightarrow> (int \<times> number) list option \<Rightarrow> number option \<Rightarrow> int \<Rightarrow> (failure + response) option" where
  "GET realizedPriceRaw sthRPRaw lthRPRaw historicalPrices livePrice now =
     (case realizedPriceRaw of
        None \<Rightarrow> Some (Inl rpUnavailable)
      | Some rpRaw \<Rightarrow>
          if length rpRaw < 100 then Some (Inl rpUnavailable)
          else
            (case historicalPrices of
               None \<Rightarrow> Some (Inl historyUnavailable)
             | Some prices \<Rightarrow>
                 if length prices < 100 then Some (Inl historyUnavailable)
                 else
                   (let S = buildSeries rpRaw sthRPRaw lthRPRaw;
                        filtered = windowed prices;
                        sampled = resample filtered
                    in do {
                      records \<leftarrow> chartData S sampled;
                      if \<not> timeOk (fst (last rpRaw)) then Some (Inl internalError)
                      else
                        (let latestRPv = Math_round (snd (last rpRaw));
                             latestSTHv = latestCohort sthRPRaw;
                             latestLTHv = latestCohort lthRPRaw;
                             current = currentPrice livePrice (lastHistorical filtered) records
                         in do {
                           final \<leftarrow> reconcile S latestRPv latestSTHv latestLTHv livePrice now records;
                           Some (Inr \<lparr> data = final,
                                       latestRP = latestRPv,
                                       latestRPDate = fst (last rpRaw),
                                       latestSTH = latestSTHv,
                                       latestLTH = latestLTHv,
                                       latestPrice = Math_round current,
                                       dataPoints = length final \<rparr>)
                         })
                    })))"

section \<open>Conditions on the inputs\<close>

text \<open>An ECMAScript array has fewer than \<open>2^32\<close> elements.\<close>

definition fitsArray :: "'a list \<Rightarrow> bool" where
  "fitsArray xs \<longleftrightarrow> length xs < 2 ^ 32"

definition feedFits :: "'a list option \<Rightarrow> bool" where
  "feedFits raw = (case raw of Some r \<Rightarrow> fitsArray r | None \<Rightarrow> True)"

definition seriesFits :: "series \<Rightarrow> bool" where
  "seriesFits S \<longleftrightarrow> fitsArray (rpKeys S) \<and> feedFits (sthKeys S) \<and> feedFits (lthKeys S)"

text \<open>\<^verbatim>\<open>!raw || raw.length < 100\<close>\<close>

definition tooShort :: "'a list option \<Rightarrow> bool" where
  "tooShort raw = (case raw of None \<Rightarrow> True | Some r \<Rightarrow> length r < 100)"

section \<open>Rounding to a double\<close>

text \<open>The exponent brackets its argument, and is the only integer that does.\<close>

lemma binaryExponent_bounds:
  assumes "0 < a"
  shows "2 powi binaryExponent a \<le> a \<and> a < 2 powi (binaryExponent a + 1)"
proof (cases "1 \<le> a")
  case True
  let ?n = "\<lfloor>a\<rfloor>"
  have n: "0 < ?n" using True by simp
  have e: "binaryExponent a = bitlen ?n - 1" using True by (simp add: binaryExponent_def)
  have k: "1 \<le> bitlen ?n" using n by (simp add: bitlen_alt_def)
  from bitlen_bounds [OF n] have lo: "2 ^ nat (bitlen ?n - 1) \<le> ?n" and hi: "?n < 2 ^ nat (bitlen ?n)"
    by simp_all
  have "(2 :: real) ^ nat (bitlen ?n - 1) \<le> of_int ?n"
    using lo by (metis of_int_le_iff of_int_numeral of_int_power)
  also have "\<dots> \<le> a" by simp
  finally have 1: "2 powi binaryExponent a \<le> a"
    using k by (simp add: e power_int_def)
  have "?n + 1 \<le> 2 ^ nat (bitlen ?n)" using hi by simp
  then have "of_int (?n + 1) \<le> (2 :: real) ^ nat (bitlen ?n)"
    by (metis of_int_le_iff of_int_numeral of_int_power)
  moreover have "a < of_int (?n + 1)" by linarith
  ultimately have "a < 2 ^ nat (bitlen ?n)" by linarith
  then have 2: "a < 2 powi (binaryExponent a + 1)"
    using k by (simp add: e power_int_def)
  show ?thesis using 1 2 by simp
next
  case False
  let ?y = "1 / a"
  let ?m = "\<lceil>?y\<rceil> - 1"
  have y: "1 < ?y" using False assms by simp
  have m: "0 < ?m" using y by linarith
  have e: "binaryExponent a = - bitlen ?m" using False by (simp add: binaryExponent_def)
  have k: "1 \<le> bitlen ?m" using m by (simp add: bitlen_alt_def)
  from bitlen_bounds [OF m] have lo: "2 ^ nat (bitlen ?m - 1) \<le> ?m" and hi: "?m < 2 ^ nat (bitlen ?m)"
    by simp_all
  have "?m + 1 \<le> 2 ^ nat (bitlen ?m)" using hi by simp
  then have "of_int (?m + 1) \<le> (2 :: real) ^ nat (bitlen ?m)"
    by (metis of_int_le_iff of_int_numeral of_int_power)
  moreover have "?y \<le> of_int (?m + 1)" by simp
  ultimately have yle: "?y \<le> 2 ^ nat (bitlen ?m)" by linarith
  have "(2 :: real) ^ nat (bitlen ?m - 1) \<le> of_int ?m"
    using lo by (metis of_int_le_iff of_int_numeral of_int_power)
  moreover have "of_int ?m < ?y" by linarith
  ultimately have ylt: "2 ^ nat (bitlen ?m - 1) < ?y" by linarith
  have pk: "2 powi (- bitlen ?m) = 1 / (2 :: real) ^ nat (bitlen ?m)"
    using k by (simp add: power_int_minus_divide power_int_def power_one_over)
  have "- bitlen ?m + 1 = - (bitlen ?m - 1)" by simp
  then have "2 powi (- bitlen ?m + 1) = 1 / (2 :: real) powi (bitlen ?m - 1)"
    by (simp only: power_int_minus_divide)
  then have pk1: "2 powi (- bitlen ?m + 1) = 1 / (2 :: real) ^ nat (bitlen ?m - 1)"
    using k by (simp add: power_int_def)
  have ay: "1 / ?y = a" by simp
  have "1 / 2 ^ nat (bitlen ?m) \<le> 1 / ?y"
    using yle y assms by (intro divide_left_mono) simp_all
  then have 1: "2 powi binaryExponent a \<le> a"
    by (simp only: e pk ay)
  have "1 / ?y < 1 / 2 ^ nat (bitlen ?m - 1)"
    using ylt assms by (intro divide_strict_left_mono) simp_all
  then have 2: "a < 2 powi (binaryExponent a + 1)"
    by (simp only: e pk1 ay)
  show ?thesis using 1 2 by simp
qed

lemma roundHalfEven_error: "\<bar>of_int (roundHalfEven m) - m\<bar> \<le> 1 / 2"
  unfolding roundHalfEven_def Let_def by (auto; linarith)

lemma powi_less_cancel: "(2 :: real) powi m < 2 powi n \<Longrightarrow> m < n"
  using power_int_increasing [of n m "2 :: real"] by (cases "m < n") simp_all

lemma binaryExponent_unique:
  assumes "0 < a" and "2 powi e \<le> a" and "a < 2 powi (e + 1)"
  shows "binaryExponent a = e"
proof -
  from binaryExponent_bounds [OF assms(1)]
  have lo: "2 powi binaryExponent a \<le> a" and hi: "a < 2 powi (binaryExponent a + 1)"
    by simp_all
  have "(2 :: real) powi binaryExponent a < 2 powi (e + 1)" using lo assms(3) by linarith
  then have 1: "binaryExponent a < e + 1" by (rule powi_less_cancel)
  have "(2 :: real) powi e < 2 powi (binaryExponent a + 1)" using hi assms(2) by linarith
  then have 2: "e < binaryExponent a + 1" by (rule powi_less_cancel)
  from 1 2 show ?thesis by simp
qed

lemma roundToDouble_eq:
  assumes "2 powi e \<le> x" and "x < 2 powi (e + 1)" and "- 1022 \<le> e"
  shows "roundToDouble x = of_int (roundHalfEven (x / 2 powi (e - 52))) * 2 powi (e - 52)"
proof -
  have "(0 :: real) < 2 powi e" by simp
  then have x: "0 < x" using assms(1) by linarith
  have "binaryExponent x = e" using binaryExponent_unique [OF x assms(1,2)] .
  then show ?thesis using x assms(3) by (simp add: roundToDouble_def Let_def max_def)
qed

lemma roundToDouble_error:
  assumes "2 powi (- 1022) \<le> x"
  shows "\<bar>roundToDouble x - x\<bar> \<le> x / 2 ^ 53"
proof -
  have "(0 :: real) < 2 powi (- 1022)" by simp
  then have x: "0 < x" using assms by linarith
  define e where "e = binaryExponent x"
  from binaryExponent_bounds [OF x]
  have lo: "2 powi e \<le> x" and hi: "x < 2 powi (e + 1)" by (simp_all add: e_def)
  have "(2 :: real) powi (- 1022) < 2 powi (e + 1)" using assms hi by linarith
  then have "- 1022 < e + 1" by (rule powi_less_cancel)
  then have e: "- 1022 \<le> e" by simp
  define q :: real where "q = 2 powi (e - 52)"
  have q: "0 < q" by (simp add: q_def)
  have r: "roundToDouble x = of_int (roundHalfEven (x / q)) * q"
    unfolding q_def by (rule roundToDouble_eq [OF lo hi e])
  have "\<bar>of_int (roundHalfEven (x / q)) - x / q\<bar> * q \<le> 1 / 2 * q"
    using roundHalfEven_error [of "x / q"] q by (intro mult_right_mono) simp_all
  moreover have "\<bar>of_int (roundHalfEven (x / q)) - x / q\<bar> * q
      = \<bar>of_int (roundHalfEven (x / q)) * q - x\<bar>"
  proof -
    have "(of_int (roundHalfEven (x / q)) - x / q) * q = of_int (roundHalfEven (x / q)) * q - x"
      using q by (simp add: left_diff_distrib)
    then have "\<bar>of_int (roundHalfEven (x / q)) * q - x\<bar>
        = \<bar>of_int (roundHalfEven (x / q)) - x / q\<bar> * \<bar>q\<bar>"
      by (simp only: abs_mult [symmetric])
    then show ?thesis using q by simp
  qed
  ultimately have d: "\<bar>roundToDouble x - x\<bar> \<le> q / 2" by (simp add: r)
  have "q * 2 ^ 52 = 2 powi e"
    unfolding q_def by (simp add: power_int_diff)
  then have "q / 2 * 2 ^ 53 \<le> x" using lo by simp
  then have "q / 2 \<le> x / 2 ^ 53" by (simp add: pos_le_divide_eq)
  with d show ?thesis by linarith
qed

section \<open>Band products\<close>

lemma round_gap: "x + 1 \<le> y \<Longrightarrow> Math_round x < Math_round y"
proof -
  assume "x + 1 \<le> y"
  then have "\<lfloor>x + 1 / 2\<rfloor> + 1 \<le> \<lfloor>y + 1 / 2\<rfloor>"
    by (simp add: le_floor_iff) linarith
  then show ?thesis by (simp add: Math_round_def)
qed

lemma round_mono: "x \<le> y \<Longrightarrow> Math_round x \<le> Math_round y"
  by (simp add: Math_round_def floor_mono)

lemma round_ge: "n \<le> Math_round v \<longleftrightarrow> of_int n - 1 / 2 \<le> v"
  by (simp add: Math_round_def le_floor_iff) linarith

lemma tiny: "2 powi (- 1022) \<le> (1 / 4 :: real)"
proof -
  have "(2 :: real) powi (- 1022) \<le> 2 powi (- 2)"
    by (rule power_int_increasing) simp_all
  then show ?thesis by (simp add: power_int_minus)
qed

lemma toDouble_overflow: "overflowThreshold \<le> x \<Longrightarrow> toDouble x = PosInfinity"
proof -
  assume a: "overflowThreshold \<le> x"
  have "0 < overflowThreshold" by (simp add: overflowThreshold_def)
  then show ?thesis using a by (simp add: toDouble_def)
qed

lemma toDouble_finite:
  assumes "1 / 4 \<le> x" "x < overflowThreshold"
  shows "\<exists>p. toDouble x = Num p \<and> x * (1 - 1 / 2 ^ 53) \<le> p \<and> p \<le> x * (1 + 1 / 2 ^ 53)"
proof -
  have "2 powi (- 1022) \<le> x" using tiny assms(1) by linarith
  from roundToDouble_error [OF this]
  have "\<bar>roundToDouble x - x\<bar> \<le> x / 2 ^ 53" .
  then have "x - x / 2 ^ 53 \<le> roundToDouble x \<and> roundToDouble x \<le> x + x / 2 ^ 53"
    by linarith
  moreover have "x * (1 - 1 / 2 ^ 53) = x - x / 2 ^ 53" "x * (1 + 1 / 2 ^ 53) = x + x / 2 ^ 53"
    by (simp_all add: algebra_simps)
  ultimately have "x * (1 - 1 / 2 ^ 53) \<le> roundToDouble x \<and> roundToDouble x \<le> x * (1 + 1 / 2 ^ 53)"
    by (simp only:)
  moreover have "toDouble x = Num (roundToDouble x)"
    using assms by (simp add: toDouble_def)
  ultimately show ?thesis by blast
qed

lemma toDouble_cases:
  assumes "1 / 4 \<le> x"
  shows "toDouble x = PosInfinity
    \<or> (\<exists>p. toDouble x = Num p \<and> x * (1 - 1 / 2 ^ 53) \<le> p \<and> p \<le> x * (1 + 1 / 2 ^ 53))"
  using toDouble_overflow [of x] toDouble_finite [OF assms] by (cases "x < overflowThreshold") auto

lemma toDouble_mono_inf:
  assumes "1 / 4 \<le> x" "x \<le> y" "toDouble x = PosInfinity"
  shows "toDouble y = PosInfinity"
proof -
  have "\<not> x < overflowThreshold"
    using toDouble_finite [OF assms(1)] assms(3) by auto
  then show ?thesis using assms(2) by (intro toDouble_overflow) simp
qed

lemma link_weak:
  assumes "1 / 4 \<le> x" "x * (1 + 1 / 2 ^ 53) \<le> y * (1 - 1 / 2 ^ 53)"
  shows "leExt (Math_round_ext (toDouble x)) (Math_round_ext (toDouble y))"
proof -
  have xy: "x \<le> y" using assms by (simp add: algebra_simps)
  then have y: "1 / 4 \<le> y" using assms(1) by simp
  from toDouble_cases [OF y] show ?thesis
  proof
    assume "toDouble y = PosInfinity"
    then show ?thesis by (cases "toDouble x") (simp_all add: leExt_def)
  next
    assume "\<exists>p. toDouble y = Num p \<and> y * (1 - 1 / 2 ^ 53) \<le> p \<and> p \<le> y * (1 + 1 / 2 ^ 53)"
    then obtain q where q: "toDouble y = Num q" "y * (1 - 1 / 2 ^ 53) \<le> q" by blast
    then have "toDouble x \<noteq> PosInfinity"
      using toDouble_mono_inf [OF assms(1) xy] by auto
    then obtain p where p: "toDouble x = Num p" "p \<le> x * (1 + 1 / 2 ^ 53)"
      using toDouble_cases [OF assms(1)] by auto
    have "p \<le> q" using p(2) q(2) assms(2) by linarith
    then have "Math_round p \<le> Math_round q" by (rule round_mono)
    then show ?thesis by (auto simp: p q leExt_def)
  qed
qed

lemma link_strict:
  assumes "1 / 4 \<le> x" "x * (1 + 1 / 2 ^ 53) + 1 \<le> y * (1 - 1 / 2 ^ 53)"
    and "toDouble x \<noteq> PosInfinity"
  shows "lessExt (Math_round_ext (toDouble x)) (Math_round_ext (toDouble y))"
proof -
  have xy: "x \<le> y" using assms(1,2) by (simp add: algebra_simps)
  then have y: "1 / 4 \<le> y" using assms(1) by simp
  obtain p where p: "toDouble x = Num p" "p \<le> x * (1 + 1 / 2 ^ 53)"
    using toDouble_cases [OF assms(1)] assms(3) by auto
  from toDouble_cases [OF y] show ?thesis
  proof
    assume "toDouble y = PosInfinity"
    then show ?thesis by (simp add: p)
  next
    assume "\<exists>p. toDouble y = Num p \<and> y * (1 - 1 / 2 ^ 53) \<le> p \<and> p \<le> y * (1 + 1 / 2 ^ 53)"
    then obtain q where q: "toDouble y = Num q" "y * (1 - 1 / 2 ^ 53) \<le> q" by blast
    have "p + 1 \<le> q" using p(2) q(2) assms(2) by linarith
    then have "Math_round p < Math_round q" by (rule round_gap)
    then show ?thesis by (simp add: p q)
  qed
qed

text \<open>The doubles that the five literals denote.\<close>

lemma literal_0_8: "roundToDouble 0.8 = 3602879701896397 / 4503599627370496"
  by (subst roundToDouble_eq [of "- 1"]) (simp_all add: roundHalfEven_def Let_def power_int_minus)

lemma literal_1_25: "roundToDouble 1.25 = 5 / 4"
  by (subst roundToDouble_eq [of 0]) (simp_all add: roundHalfEven_def Let_def power_int_minus)

lemma literal_1_7: "roundToDouble 1.7 = 7656119366529843 / 4503599627370496"
  by (subst roundToDouble_eq [of 0]) (simp_all add: roundHalfEven_def Let_def power_int_minus)

lemma literal_2_4: "roundToDouble 2.4 = 5404319552844595 / 2251799813685248"
  by (subst roundToDouble_eq [of 1]) (simp_all add: roundHalfEven_def Let_def power_int_minus)

lemma literal_3_2: "roundToDouble 3.2 = 3602879701896397 / 1125899906842624"
  by (subst roundToDouble_eq [of 1]) (simp_all add: roundHalfEven_def Let_def power_int_minus)

lemmas literals = literal_0_8 literal_1_25 literal_1_7 literal_2_4 literal_3_2

lemma Math_round_ext_inf [simp]: "Math_round_ext a = PosInfinity \<longleftrightarrow> a = PosInfinity"
  by (cases a) simp_all

lemma toDouble_bounds:
  assumes "1 / 4 \<le> x" "toDouble x \<noteq> PosInfinity"
  obtains p where "toDouble x = Num p" "x * (1 - 1 / 2 ^ 53) \<le> p" "p \<le> x * (1 + 1 / 2 ^ 53)"
  using toDouble_cases [OF assms(1)] assms(2) by blast

lemma below_weak:
  assumes "1 / 4 \<le> x" "x * (1 + 1 / 2 ^ 53) \<le> w" "toDouble x \<noteq> PosInfinity"
  shows "leExt (Math_round_ext (toDouble x)) (Num (Math_round w))"
proof -
  obtain p where p: "toDouble x = Num p" "p \<le> x * (1 + 1 / 2 ^ 53)"
    using toDouble_bounds [OF assms(1,3)] by blast
  have "p \<le> w" using p(2) assms(2) by linarith
  then have "Math_round p \<le> Math_round w" by (rule round_mono)
  then show ?thesis by (auto simp: p leExt_def)
qed

lemma above_weak:
  assumes "1 / 4 \<le> x" "w \<le> x * (1 - 1 / 2 ^ 53)"
  shows "leExt (Num (Math_round w)) (Math_round_ext (toDouble x))"
proof (cases "toDouble x = PosInfinity")
  case True
  then show ?thesis by (simp add: leExt_def)
next
  case False
  obtain p where p: "toDouble x = Num p" "x * (1 - 1 / 2 ^ 53) \<le> p"
    using toDouble_bounds [OF assms(1) False] by blast
  have "w \<le> p" using p(2) assms(2) by linarith
  then have "Math_round w \<le> Math_round p" by (rule round_mono)
  then show ?thesis by (auto simp: p leExt_def)
qed

lemma below_strict:
  assumes "1 / 4 \<le> x" "toDouble x \<noteq> PosInfinity"
    and "x * (1 + 1 / 2 ^ 53) + 1 \<le> w
         \<or> x * (1 + 1 / 2 ^ 53) + 1 / 2 < of_int n \<and> n \<le> Math_round w"
  shows "lessExt (Math_round_ext (toDouble x)) (Num (Math_round w))"
proof -
  obtain p where p: "toDouble x = Num p" "p \<le> x * (1 + 1 / 2 ^ 53)"
    using toDouble_bounds [OF assms(1,2)] by blast
  from assms(3) have "Math_round p < Math_round w"
  proof
    assume "x * (1 + 1 / 2 ^ 53) + 1 \<le> w"
    then have "p + 1 \<le> w" using p(2) by linarith
    then show ?thesis by (rule round_gap)
  next
    assume a: "x * (1 + 1 / 2 ^ 53) + 1 / 2 < of_int n \<and> n \<le> Math_round w"
    then have "p + 1 / 2 < of_int n" using p(2) by linarith
    then have "Math_round p < n" by (simp add: Math_round_def floor_less_iff)
    then show ?thesis using a by linarith
  qed
  then show ?thesis by (simp add: p)
qed

lemma above_strict:
  assumes "1 / 4 \<le> x" "w + 1 \<le> x * (1 - 1 / 2 ^ 53)"
  shows "lessExt (Num (Math_round w)) (Math_round_ext (toDouble x))"
proof (cases "toDouble x = PosInfinity")
  case True
  then show ?thesis by simp
next
  case False
  obtain p where p: "toDouble x = Num p" "x * (1 - 1 / 2 ^ 53) \<le> p"
    using toDouble_bounds [OF assms(1) False] by blast
  have "w + 1 \<le> p" using p(2) assms(2) by linarith
  then have "Math_round w < Math_round p" by (rule round_gap)
  then show ?thesis by (simp add: p)
qed

lemma bands_weak:
  assumes "0 < Math_round v"
  shows "(jsTimes v (roundToDouble 0.8) \<noteq> PosInfinity \<longrightarrow>
            leExt (Math_round_ext (jsTimes v (roundToDouble 0.8))) (Num (Math_round v)))
    \<and> leExt (Num (Math_round v)) (Math_round_ext (jsTimes v (roundToDouble 1.25)))
    \<and> leExt (Math_round_ext (jsTimes v (roundToDouble 1.25)))
        (Math_round_ext (jsTimes v (roundToDouble 1.7)))
    \<and> leExt (Math_round_ext (jsTimes v (roundToDouble 1.7)))
        (Math_round_ext (jsTimes v (roundToDouble 2.4)))
    \<and> leExt (Math_round_ext (jsTimes v (roundToDouble 2.4)))
        (Math_round_ext (jsTimes v (roundToDouble 3.2)))"
proof -
  have "1 \<le> Math_round v" using assms by simp
  then have v: "1 / 2 \<le> v" by (simp add: round_ge)
  let ?x08 = "v * (3602879701896397 / 4503599627370496)"
  let ?x125 = "v * (5 / 4)"
  let ?x17 = "v * (7656119366529843 / 4503599627370496)"
  let ?x24 = "v * (5404319552844595 / 2251799813685248)"
  let ?x32 = "v * (3602879701896397 / 1125899906842624)"
  have a: "leExt (Math_round_ext (toDouble ?x08)) (Num (Math_round v))"
    if "toDouble ?x08 \<noteq> PosInfinity"
    using v that by (intro below_weak) simp_all
  have b: "leExt (Num (Math_round v)) (Math_round_ext (toDouble ?x125))"
    using v by (intro above_weak) simp_all
  have c: "leExt (Math_round_ext (toDouble ?x125)) (Math_round_ext (toDouble ?x17))"
    using v by (intro link_weak) simp_all
  have d: "leExt (Math_round_ext (toDouble ?x17)) (Math_round_ext (toDouble ?x24))"
    using v by (intro link_weak) simp_all
  have e: "leExt (Math_round_ext (toDouble ?x24)) (Math_round_ext (toDouble ?x32))"
    using v by (intro link_weak) simp_all
  show ?thesis unfolding jsTimes_def literals using a b c d e by blast
qed

lemma bands_strict:
  assumes "5 \<le> Math_round v" and "jsTimes v (roundToDouble 2.4) \<noteq> PosInfinity"
  shows "lessExt (Math_round_ext (jsTimes v (roundToDouble 0.8))) (Num (Math_round v))
    \<and> lessExt (Num (Math_round v)) (Math_round_ext (jsTimes v (roundToDouble 1.25)))
    \<and> lessExt (Math_round_ext (jsTimes v (roundToDouble 1.25)))
        (Math_round_ext (jsTimes v (roundToDouble 1.7)))
    \<and> lessExt (Math_round_ext (jsTimes v (roundToDouble 1.7)))
        (Math_round_ext (jsTimes v (roundToDouble 2.4)))
    \<and> lessExt (Math_round_ext (jsTimes v (roundToDouble 2.4)))
        (Math_round_ext (jsTimes v (roundToDouble 3.2)))"
proof -
  have v: "9 / 2 \<le> v" using assms(1) by (simp add: round_ge)
  let ?x08 = "v * (3602879701896397 / 4503599627370496)"
  let ?x125 = "v * (5 / 4)"
  let ?x17 = "v * (7656119366529843 / 4503599627370496)"
  let ?x24 = "v * (5404319552844595 / 2251799813685248)"
  let ?x32 = "v * (3602879701896397 / 1125899906842624)"
  have f24: "toDouble ?x24 \<noteq> PosInfinity" using assms(2) unfolding jsTimes_def literals .
  have f17: "toDouble ?x17 \<noteq> PosInfinity"
    using toDouble_mono_inf [of ?x17 ?x24] f24 v by auto
  have f125: "toDouble ?x125 \<noteq> PosInfinity"
    using toDouble_mono_inf [of ?x125 ?x24] f24 v by auto
  have f08: "toDouble ?x08 \<noteq> PosInfinity"
    using toDouble_mono_inf [of ?x08 ?x24] f24 v by auto
  have x08: "1 / 4 \<le> ?x08" using v by simp
  have "?x08 * (1 + 1 / 2 ^ 53) + 1 \<le> v
         \<or> ?x08 * (1 + 1 / 2 ^ 53) + 1 / 2 < of_int 5 \<and> 5 \<le> Math_round v"
    using assms(1) by (cases "11 / 2 \<le> v") simp_all
  then have a: "lessExt (Math_round_ext (toDouble ?x08)) (Num (Math_round v))"
    by (rule below_strict [OF x08 f08])
  have b: "lessExt (Num (Math_round v)) (Math_round_ext (toDouble ?x125))"
    using v by (intro above_strict) simp_all
  have c: "lessExt (Math_round_ext (toDouble ?x125)) (Math_round_ext (toDouble ?x17))"
    using v f125 by (intro link_strict) simp_all
  have d: "lessExt (Math_round_ext (toDouble ?x17)) (Math_round_ext (toDouble ?x24))"
    using v f17 by (intro link_strict) simp_all
  have e: "lessExt (Math_round_ext (toDouble ?x24)) (Math_round_ext (toDouble ?x32))"
    using v f24 by (intro link_strict) simp_all
  show ?thesis unfolding jsTimes_def literals using a b c d e by blast
qed

text \<open>The value of a band field, from the exponent of the exact product.\<close>

lemma band_value:
  assumes "roundToDouble c = d"
    and "2 powi e \<le> v * d" "v * d < 2 powi (e + 1)" "- 1022 \<le> e" "e \<le> 1022"
  shows "Math_round_ext (jsTimes v (roundToDouble c))
     = Num (Math_round (of_int (roundHalfEven (v * d / 2 powi (e - 52))) * 2 powi (e - 52)))"
proof -
  have "(2 :: real) powi (e + 1) \<le> 2 powi 1023"
    using assms(5) by (intro power_int_increasing) simp_all
  also have "\<dots> < overflowThreshold" by (simp add: overflowThreshold_def)
  finally have "v * d < overflowThreshold" using assms(3) by linarith
  moreover have "(0 :: real) < 2 powi e" by simp
  then have "0 < v * d" using assms(2) by linarith
  ultimately have "toDouble (v * d) = Num (roundToDouble (v * d))"
    by (simp add: toDouble_def)
  then show ?thesis
    by (simp add: jsTimes_def assms(1) roundToDouble_eq [OF assms(2,3,4)])
qed

lemma band_0_8_of_20000: "Math_round_ext (jsTimes 20000 (roundToDouble 0.8)) = Num 16000"
  by (subst band_value [OF literal_0_8, where e = 13])
    (simp_all add: roundHalfEven_def Let_def Math_round_def power_int_minus)

lemma band_1_25_of_20000: "Math_round_ext (jsTimes 20000 (roundToDouble 1.25)) = Num 25000"
  by (subst band_value [OF literal_1_25, where e = 14])
    (simp_all add: roundHalfEven_def Let_def Math_round_def power_int_minus)

lemma band_1_7_of_20000: "Math_round_ext (jsTimes 20000 (roundToDouble 1.7)) = Num 34000"
  by (subst band_value [OF literal_1_7, where e = 15])
    (simp_all add: roundHalfEven_def Let_def Math_round_def power_int_minus)

lemma band_2_4_of_20000: "Math_round_ext (jsTimes 20000 (roundToDouble 2.4)) = Num 48000"
  by (subst band_value [OF literal_2_4, where e = 15])
    (simp_all add: roundHalfEven_def Let_def Math_round_def power_int_minus)

lemma band_3_2_of_20000: "Math_round_ext (jsTimes 20000 (roundToDouble 3.2)) = Num 64000"
  by (subst band_value [OF literal_3_2, where e = 15])
    (simp_all add: roundHalfEven_def Let_def Math_round_def power_int_minus)

lemmas bands_of_20000 = band_0_8_of_20000 band_1_25_of_20000 band_1_7_of_20000 band_2_4_of_20000 band_3_2_of_20000

lemma band_0_8_of_22000: "Math_round_ext (jsTimes 22000 (roundToDouble 0.8)) = Num 17600"
  by (subst band_value [OF literal_0_8, where e = 14])
    (simp_all add: roundHalfEven_def Let_def Math_round_def power_int_minus)

lemma band_1_25_of_22000: "Math_round_ext (jsTimes 22000 (roundToDouble 1.25)) = Num 27500"
  by (subst band_value [OF literal_1_25, where e = 14])
    (simp_all add: roundHalfEven_def Let_def Math_round_def power_int_minus)

lemma band_1_7_of_22000: "Math_round_ext (jsTimes 22000 (roundToDouble 1.7)) = Num 37400"
  by (subst band_value [OF literal_1_7, where e = 15])
    (simp_all add: roundHalfEven_def Let_def Math_round_def power_int_minus)

lemma band_2_4_of_22000: "Math_round_ext (jsTimes 22000 (roundToDouble 2.4)) = Num 52800"
  by (subst band_value [OF literal_2_4, where e = 15])
    (simp_all add: roundHalfEven_def Let_def Math_round_def power_int_minus)

lemma band_3_2_of_22000: "Math_round_ext (jsTimes 22000 (roundToDouble 3.2)) = Num 70400"
  by (subst band_value [OF literal_3_2, where e = 16])
    (simp_all add: roundHalfEven_def Let_def Math_round_def power_int_minus)

lemmas bands_of_22000 = band_0_8_of_22000 band_1_25_of_22000 band_1_7_of_22000 band_2_4_of_22000 band_3_2_of_22000

lemma band_0_8_of_1: "Math_round_ext (jsTimes 1 (roundToDouble 0.8)) = Num 1"
  by (subst band_value [OF literal_0_8, where e = "- 1"])
    (simp_all add: roundHalfEven_def Let_def Math_round_def power_int_minus)

lemma band_1_25_of_1: "Math_round_ext (jsTimes 1 (roundToDouble 1.25)) = Num 1"
  by (subst band_value [OF literal_1_25, where e = 0])
    (simp_all add: roundHalfEven_def Let_def Math_round_def power_int_minus)

lemma band_1_7_of_1: "Math_round_ext (jsTimes 1 (roundToDouble 1.7)) = Num 2"
  by (subst band_value [OF literal_1_7, where e = 0])
    (simp_all add: roundHalfEven_def Let_def Math_round_def power_int_minus)

lemma band_2_4_of_1: "Math_round_ext (jsTimes 1 (roundToDouble 2.4)) = Num 2"
  by (subst band_value [OF literal_2_4, where e = 1])
    (simp_all add: roundHalfEven_def Let_def Math_round_def power_int_minus)

lemma band_3_2_of_1: "Math_round_ext (jsTimes 1 (roundToDouble 3.2)) = Num 3"
  by (subst band_value [OF literal_3_2, where e = 1])
    (simp_all add: roundHalfEven_def Let_def Math_round_def power_int_minus)

lemmas bands_of_1 = band_0_8_of_1 band_1_25_of_1 band_1_7_of_1 band_2_4_of_1 band_3_2_of_1

lemma band_2_4_overflow: "Math_round_ext (jsTimes (2 ^ 1023) (roundToDouble 2.4)) = PosInfinity"
  unfolding jsTimes_def literal_2_4 by (simp add: toDouble_def overflowThreshold_def)

lemma band_3_2_overflow: "Math_round_ext (jsTimes (2 ^ 1023) (roundToDouble 3.2)) = PosInfinity"
  unfolding jsTimes_def literal_3_2 by (simp add: toDouble_def overflowThreshold_def)

text \<open>
  The rounding of the product is visible in the result: for the double
  \<open>19001.470588235294\<close> (which is \<open>2611542232076047 / 2^37\<close>) the exact product with the
  double \<open>1.7\<close> lies below \<open>32302.5\<close>, the double product is \<open>32302.5\<close>, and
  \<^verbatim>\<open>Math.round\<close> takes it to 32303.
\<close>

lemma band_product_tie:
  "Math_round_ext (jsTimes (2611542232076047 / 137438953472) (roundToDouble 1.7)) = Num 32303"
  "Math_round (2611542232076047 / 137438953472 * (7656119366529843 / 4503599627370496)) = 32302"
  by (subst band_value [OF literal_1_7, where e = 14],
      simp_all add: roundHalfEven_def Let_def Math_round_def power_int_minus)

text \<open>The 0.8 band of a realized price below \<open>2^1024\<close>, as every double is, does not overflow.\<close>

lemma band_0_8_finite:
  assumes "v < 2 ^ 1024"
  shows "Math_round_ext (jsTimes v (roundToDouble 0.8)) \<noteq> PosInfinity"
proof -
  let ?x = "v * (3602879701896397 / 4503599627370496)"
  have "toDouble ?x \<noteq> PosInfinity"
  proof (cases "0 < v")
    case True
    then have "?x < 2 ^ 1024 * (3602879701896397 / 4503599627370496)"
      using assms by (intro mult_strict_right_mono) simp_all
    also have "\<dots> < overflowThreshold" by (simp add: overflowThreshold_def)
    finally show ?thesis using True by (simp add: toDouble_def)
  next
    case False
    then have "\<not> 0 < ?x" by (simp add: mult_le_0_iff)
    then show ?thesis by (simp add: toDouble_def)
  qed
  then show ?thesis unfolding jsTimes_def literal_0_8 by simp
qed

section \<open>The search loop of \<^verbatim>\<open>lookupRP\<close>\<close>

lemma sar1_small: "0 \<le> n \<Longrightarrow> n < 2 ^ 31 \<Longrightarrow> sar1 n = n div 2"
  by (simp add: sar1_def ToInt32_def)

lemma sar1_wrapped: "2 ^ 31 \<le> n \<Longrightarrow> n < 2 ^ 32 \<Longrightarrow> sar1 n < 0"
  by (simp add: sar1_def ToInt32_def)

lemma bsearch_exit: "hi < lo \<Longrightarrow> bsearch ks d lo hi best probes = Some (best, probes)"
  by (subst bsearch.simps) simp

lemma bsearch_true:
  "lo \<le> hi \<Longrightarrow> leNumber (arrayGet ks (sar1 (lo + hi))) d \<Longrightarrow>
   bsearch ks d lo hi best probes =
   bsearch ks d (sar1 (lo + hi) + 1) hi (sar1 (lo + hi)) (probes @ [sar1 (lo + hi)])"
  by (subst bsearch.simps) (simp add: Let_def)

lemma bsearch_false:
  "lo \<le> hi \<Longrightarrow> \<not> leNumber (arrayGet ks (sar1 (lo + hi))) d \<Longrightarrow>
   bsearch ks d lo hi best probes =
   bsearch ks d lo (sar1 (lo + hi) - 1) best (probes @ [sar1 (lo + hi)])"
  by (subst bsearch.simps) (simp add: Let_def)



text \<open>Termination for any array a JavaScript engine can hold (length below 2^32).\<close>

lemma bsearch_returns_aux:
  "0 \<le> lo \<Longrightarrow> hi < 2 ^ 31 \<Longrightarrow> \<exists>r. bsearch ks d lo hi best probes = Some r"
proof (induction "nat (hi + 1 - lo)" arbitrary: lo hi best probes rule: less_induct)
  case less
  show ?case
  proof (cases "lo \<le> hi")
    case False
    then show ?thesis by (simp add: bsearch_exit)
  next
    case True
    let ?mid = "sar1 (lo + hi)"
    show ?thesis
    proof (cases "lo + hi < 2 ^ 31")
      case small: True
      have mid: "?mid = (lo + hi) div 2"
        using True less.prems small by (intro sar1_small) auto
      have range: "lo \<le> ?mid" "?mid \<le> hi"
        using True by (simp_all add: mid)
      show ?thesis
      proof (cases "leNumber (arrayGet ks ?mid) d")
        case T: True
        have "\<exists>r. bsearch ks d (?mid + 1) hi ?mid (probes @ [?mid]) = Some r"
          using range less.prems by (intro less.hyps) auto
        then show ?thesis by (simp add: bsearch_true [OF True T])
      next
        case F: False
        have "\<exists>r. bsearch ks d lo (?mid - 1) best (probes @ [?mid]) = Some r"
          using range less.prems by (intro less.hyps) auto
        then show ?thesis by (simp add: bsearch_false [OF True F])
      qed
    next
      case False
      then have neg: "?mid < 0"
        using less.prems True by (intro sar1_wrapped) auto
      then have F: "\<not> leNumber (arrayGet ks ?mid) d"
        by (simp add: arrayGet_def)
      have "bsearch ks d lo (?mid - 1) best (probes @ [?mid]) = Some (best, probes @ [?mid])"
        using neg less.prems by (intro bsearch_exit) auto
      then show ?thesis by (simp add: bsearch_false [OF True F])
    qed
  qed
qed

lemma bsearch_returns:
  assumes "length ks < 2 ^ 32"
  shows "\<exists>r. bsearch ks d 0 (int (length ks) - 1) best probes = Some r"
proof (cases "int (length ks) - 1 < 2 ^ 31")
  case True
  then show ?thesis by (intro bsearch_returns_aux) auto
next
  case False
  let ?hi = "int (length ks) - 1"
  let ?mid = "sar1 (0 + ?hi)"
  have hi: "2 ^ 31 \<le> ?hi" "?hi < 2 ^ 32"
    using False assms by auto
  have le: "0 \<le> ?hi" using hi by auto
  have neg: "?mid < 0"
    using hi by (intro sar1_wrapped) auto
  then have F: "\<not> leNumber (arrayGet ks ?mid) d"
    by (simp add: arrayGet_def)
  have "bsearch ks d 0 (?mid - 1) best (probes @ [?mid]) = Some (best, probes @ [?mid])"
    using neg by (intro bsearch_exit) auto
  then show ?thesis using bsearch_false [OF le F, of best probes] by simp
qed

lemma lookupRP_returns:
  "length ks < 2 ^ 32 \<Longrightarrow> \<exists>v. lookupRP m ks t = Some v"
  using bsearch_returns [of ks "startOfDay t" "- 1" "[]"]
  by (auto simp: lookupRP_def Let_def split: option.splits)

text \<open>On a sorted array below 2^30 elements the loop finds the last key at most d.\<close>

lemma bsearch_sorted:
  assumes "sorted ks" "int (length ks) \<le> 2 ^ 30"
  shows "0 \<le> lo \<Longrightarrow> hi < int (length ks) \<Longrightarrow> lo \<le> hi + 1 \<Longrightarrow>
    \<forall>i<length ks. int i < lo \<longrightarrow> ks ! i \<le> d \<Longrightarrow>
    \<forall>i<length ks. hi < int i \<longrightarrow> d < ks ! i \<Longrightarrow>
    \<exists>b ps. bsearch ks (Some d) lo hi (lo - 1) probes = Some (b, ps)
      \<and> - 1 \<le> b \<and> b < int (length ks)
      \<and> (\<forall>i<length ks. int i \<le> b \<longrightarrow> ks ! i \<le> d)
      \<and> (\<forall>i<length ks. b < int i \<longrightarrow> d < ks ! i)"
proof (induction "nat (hi + 1 - lo)" arbitrary: lo hi probes rule: less_induct)
  case less
  show ?case
  proof (cases "lo \<le> hi")
    case False
    then have "lo = hi + 1" using less.prems by simp
    then show ?thesis using less.prems by (simp add: bsearch_exit)
  next
    case True
    let ?mid = "sar1 (lo + hi)"
    have mid: "?mid = (lo + hi) div 2"
      using True less.prems assms by (intro sar1_small) auto
    have range: "lo \<le> ?mid" "?mid \<le> hi"
      using True by (simp_all add: mid)
    have inb: "0 \<le> ?mid" "nat ?mid < length ks"
      using range less.prems by auto
    have get: "arrayGet ks ?mid = Some (ks ! nat ?mid)"
      using inb by (simp add: arrayGet_def)
    show ?thesis
    proof (cases "ks ! nat ?mid \<le> d")
      case le: True
      have T: "leNumber (arrayGet ks ?mid) (Some d)" using le by (simp add: get)
      have below: "\<forall>i<length ks. int i < ?mid + 1 \<longrightarrow> ks ! i \<le> d"
      proof (intro allI impI)
        fix i assume "i < length ks" "int i < ?mid + 1"
        then have "i \<le> nat ?mid" by auto
        then have "ks ! i \<le> ks ! nat ?mid"
          using assms(1) inb(2) by (simp add: sorted_nth_mono)
        then show "ks ! i \<le> d" using le by simp
      qed
      have "\<exists>b ps. bsearch ks (Some d) (?mid + 1) hi ((?mid + 1) - 1) (probes @ [?mid]) = Some (b, ps)
        \<and> - 1 \<le> b \<and> b < int (length ks)
        \<and> (\<forall>i<length ks. int i \<le> b \<longrightarrow> ks ! i \<le> d)
        \<and> (\<forall>i<length ks. b < int i \<longrightarrow> d < ks ! i)"
        using range less.prems below by (intro less.hyps) auto
      then show ?thesis by (simp add: bsearch_true [OF True T])
    next
      case gt: False
      have F: "\<not> leNumber (arrayGet ks ?mid) (Some d)" using gt by (simp add: get)
      have above: "\<forall>i<length ks. ?mid - 1 < int i \<longrightarrow> d < ks ! i"
      proof (intro allI impI)
        fix i assume i: "i < length ks" "?mid - 1 < int i"
        then have "nat ?mid \<le> i" by auto
        then have "ks ! nat ?mid \<le> ks ! i"
          using assms(1) i(1) by (simp add: sorted_nth_mono)
        then show "d < ks ! i" using gt by simp
      qed
      have "\<exists>b ps. bsearch ks (Some d) lo (?mid - 1) (lo - 1) (probes @ [?mid]) = Some (b, ps)
        \<and> - 1 \<le> b \<and> b < int (length ks)
        \<and> (\<forall>i<length ks. int i \<le> b \<longrightarrow> ks ! i \<le> d)
        \<and> (\<forall>i<length ks. b < int i \<longrightarrow> d < ks ! i)"
        using range less.prems above by (intro less.hyps) auto
      then show ?thesis by (simp add: bsearch_false [OF True F])
    qed
  qed
qed


lemma lookupRP_exact:
  "timeOk t \<Longrightarrow> map_of m (utcMidnight t) = Some v \<Longrightarrow> lookupRP m ks t = Some (Some v)"
  by (simp add: lookupRP_def startOfDay_def mapGet_def)

section \<open>The day map\<close>

lemma buildDayMap_Nil: "buildDayMap [] = []"
  by (simp add: buildDayMap_def)

lemma buildDayMap_snoc:
  "buildDayMap (raw @ [p]) = AList.update (utcMidnight (fst p)) (snd p) (buildDayMap raw)"
  by (simp add: buildDayMap_def split_beta)

lemma distinct_buildDayMap: "distinct (map fst (buildDayMap raw))"
  by (induction raw rule: rev_induct)
     (simp_all add: buildDayMap_Nil buildDayMap_snoc distinct_update)

lemma keys_buildDayMap: "fst ` set (buildDayMap raw) = (\<lambda>p. utcMidnight (fst p)) ` set raw"
  by (induction raw rule: rev_induct)
     (auto simp: buildDayMap_Nil buildDayMap_snoc dom_update)

lemma length_buildDayMap: "length (buildDayMap raw) \<le> length raw"
proof (induction raw rule: rev_induct)
  case Nil
  then show ?case by (simp add: buildDayMap_Nil)
next
  case (snoc p raw)
  have "length (AList.update k v al) \<le> Suc (length al)" for k :: int and v :: number and al
    by (induction al) auto
  from this [of "utcMidnight (fst p)" "snd p" "buildDayMap raw"] snoc
  show ?case by (simp add: buildDayMap_snoc)
qed

lemma map_of_buildDayMap:
  "k \<in> (\<lambda>p. utcMidnight (fst p)) ` set raw \<Longrightarrow>
   map_of (buildDayMap raw) k = Some (snd (last (filter (\<lambda>p. utcMidnight (fst p) = k) raw)))"
proof (induction raw rule: rev_induct)
  case Nil
  then show ?case by simp
next
  case (snoc p raw)
  show ?case
  proof (cases "utcMidnight (fst p) = k")
    case True
    then show ?thesis by (simp add: buildDayMap_snoc update_conv')
  next
    case False
    then have "k \<in> (\<lambda>p. utcMidnight (fst p)) ` set raw" using snoc.prems by auto
    then show ?thesis using False snoc.IH by (simp add: buildDayMap_snoc update_conv')
  qed
qed

lemma map_of_buildDayMap_None:
  "k \<notin> (\<lambda>p. utcMidnight (fst p)) ` set raw \<Longrightarrow> map_of (buildDayMap raw) k = None"
  using keys_buildDayMap [of raw] by (simp add: map_of_eq_None_iff)

lemma sortedKeysOf_props:
  "sorted (sortedKeysOf m)" "set (sortedKeysOf m) = fst ` set m"
  "length (sortedKeysOf m) = length m"
  "distinct (sortedKeysOf m) = distinct (map fst m)"
  by (simp_all add: sortedKeysOf_def)

text \<open>ECMAScript time values span 200 000 001 days, fewer than 2^30.\<close>

lemma utcMidnight_range:
  assumes "timeOk ts"
  shows "utcMidnight ts \<in> (\<lambda>n. n * msPerDay) ` {- 100000000 .. 100000000}"
proof -
  have "(- 8640000000000000) div 86400000 \<le> ts div (86400000 :: int)"
    using assms by (intro zdiv_mono1) (simp_all add: timeOk_def)
  moreover have "ts div 86400000 \<le> 8640000000000000 div (86400000 :: int)"
    using assms by (intro zdiv_mono1) (simp_all add: timeOk_def)
  ultimately have "- 100000000 \<le> ts div msPerDay" "ts div msPerDay \<le> 100000000"
    by (simp_all add: msPerDay_def)
  then show ?thesis by (auto simp: utcMidnight_def)
qed

lemma days_bound:
  assumes "\<forall>p\<in>set raw. timeOk (fst p)"
  shows "int (length (buildDayMap raw)) \<le> 200000001"
proof -
  let ?D = "(\<lambda>n. n * msPerDay) ` {- 100000000 .. 100000000 :: int}"
  have "fst ` set (buildDayMap raw) \<subseteq> ?D"
    using assms utcMidnight_range by (auto simp: keys_buildDayMap)
  then have "card (fst ` set (buildDayMap raw)) \<le> card ?D"
    by (intro card_mono) auto
  also have "\<dots> \<le> card {- 100000000 .. 100000000 :: int}"
    by (rule card_image_le) simp
  also have "\<dots> = 200000001" by simp
  finally have "card (set (map fst (buildDayMap raw))) \<le> 200000001" by simp
  then have "length (map fst (buildDayMap raw)) \<le> 200000001"
    using distinct_buildDayMap [of raw] by (simp only: distinct_card)
  then show ?thesis by simp
qed

lemma utcMidnight_seconds: "s mod 86400 = 0 \<Longrightarrow> utcMidnight (s * 1000) = s * 1000"
proof -
  assume "s mod 86400 = 0"
  then obtain q where "s = 86400 * q" by (auto simp: mod_eq_0_iff_dvd)
  then show ?thesis by (simp add: utcMidnight_def msPerDay_def)
qed

lemma foldl_update_replicate:
  "n \<noteq> 0 \<Longrightarrow>
   foldl (\<lambda>m (ts, val). AList.update (utcMidnight ts) val m) m (replicate n (t, v))
     = AList.update (utcMidnight t) v m"
proof (induction n arbitrary: m)
  case 0
  then show ?case by simp
next
  case (Suc n)
  then show ?case by (cases "n = 0") simp_all
qed

lemma buildDayMap_example:
  "buildDayMap (replicate 50 (1577836800000, v0) @ replicate 50 (1578700800000, v10))
     = [(1577836800000, v0), (1578700800000, v10)]"
  by (simp add: buildDayMap_def foldl_update_replicate) (simp add: utcMidnight_def msPerDay_def)

section \<open>Forward fill and safety of the lookup\<close>

lemma lookupRP_sorted:
  assumes srt: "sorted ks" "distinct ks" and len: "int (length ks) \<le> 2 ^ 30"
    and keys: "set ks = fst ` set m" and valid: "timeOk t"
  shows "(\<forall>i<length ks. ks ! i \<le> utcMidnight t \<and> (Suc i < length ks \<longrightarrow> utcMidnight t < ks ! Suc i)
            \<longrightarrow> lookupRP m ks t = Some (map_of m (ks ! i)))
       \<and> ((\<forall>k\<in>set ks. utcMidnight t < k) \<longrightarrow> lookupRP m ks t = Some None)"
proof -
  let ?d = "utcMidnight t"
  have "\<exists>b ps. bsearch ks (Some ?d) 0 (int (length ks) - 1) (0 - 1) [] = Some (b, ps)
      \<and> - 1 \<le> b \<and> b < int (length ks)
      \<and> (\<forall>i<length ks. int i \<le> b \<longrightarrow> ks ! i \<le> ?d)
      \<and> (\<forall>i<length ks. b < int i \<longrightarrow> ?d < ks ! i)"
    using srt(1) len by (intro bsearch_sorted) auto
  then obtain b ps where run: "bsearch ks (Some ?d) 0 (int (length ks) - 1) (- 1) [] = Some (b, ps)"
    and b: "- 1 \<le> b" "b < int (length ks)"
    and below: "\<forall>i<length ks. int i \<le> b \<longrightarrow> ks ! i \<le> ?d"
    and above: "\<forall>i<length ks. b < int i \<longrightarrow> ?d < ks ! i"
    by auto
  have fill: "lookupRP m ks t = Some (map_of m (ks ! i))"
    if i: "i < length ks" "ks ! i \<le> ?d" "Suc i < length ks \<longrightarrow> ?d < ks ! Suc i" for i
  proof (cases "map_of m ?d")
    case None
    have "\<not> b < int i" using above i by fastforce
    moreover have "\<not> int (Suc i) \<le> b"
    proof
      assume *: "int (Suc i) \<le> b"
      then have "Suc i < length ks" using b by auto
      then show False using * below i(3) by fastforce
    qed
    ultimately have "b = int i" by auto
    then show ?thesis using run None i(1) valid
      by (simp add: lookupRP_def arrayGet_def startOfDay_def mapGet_def)
  next
    case (Some v)
    then have "?d \<in> set ks" using keys by (metis map_of_SomeD fst_conv image_eqI)
    then obtain j where j: "j < length ks" "ks ! j = ?d" by (auto simp: in_set_conv_nth)
    have "\<not> j < i"
    proof
      assume "j < i"
      then have "ks ! j \<le> ks ! i" "ks ! j \<noteq> ks ! i"
        using srt i(1) j(1) by (simp_all add: sorted_nth_mono nth_eq_iff_index_eq)
      then show False using i(2) j(2) by simp
    qed
    moreover have "\<not> i < j"
    proof
      assume "i < j"
      then have "Suc i < length ks" "ks ! Suc i \<le> ks ! j"
        using srt(1) j(1) by (simp_all add: sorted_nth_mono)
      then show False using i(3) j(2) by simp
    qed
    ultimately have "j = i" by simp
    then show ?thesis using Some j(2) valid
      by (simp add: lookupRP_def startOfDay_def mapGet_def)
  qed
  have before: "lookupRP m ks t = Some None" if all: "\<forall>k\<in>set ks. ?d < k"
  proof -
    have "?d \<notin> fst ` set m" using all keys by auto
    then have none: "map_of m ?d = None" by (simp add: map_of_eq_None_iff)
    have "b < 0"
    proof (rule ccontr)
      assume "\<not> b < 0"
      then have "nat b < length ks" "int (nat b) \<le> b" using b by auto
      then have "ks ! nat b \<le> ?d" using below by blast
      moreover have "ks ! nat b \<in> set ks" using \<open>nat b < length ks\<close> by simp
      ultimately show False using all by fastforce
    qed
    then show ?thesis using run none valid
      by (simp add: lookupRP_def startOfDay_def mapGet_def)
  qed
  show ?thesis using fill before by blast
qed

text \<open>
  C1 (forward fill).  Take the day map built from any raw series of valid time values and
  its ascending key array \<open>ks\<close>: the keys are the distinct UTC days \<open>d\<^sub>1 < \<dots> < d\<^sub>n\<close> of
  the series.  For a query (a valid time value) whose UTC day lies in \<open>[d\<^sub>i, d\<^sub>i\<^sub>+\<^sub>1)\<close>, or at
  or after the last day, \<^verbatim>\<open>lookupRP\<close> returns the value stored at \<open>d\<^sub>i\<close>, which is the value of
  the last raw point of that day; for a query whose day is before every key it returns
  null.
\<close>

theorem lookupRP_forward_fill:
  assumes "\<forall>p\<in>set raw. timeOk (fst p)"
    and "m = buildDayMap raw" and "ks = sortedKeysOf m" and "day = utcMidnight t"
    and "timeOk t"
  shows "sorted ks \<and> distinct ks \<and> set ks = (\<lambda>p. utcMidnight (fst p)) ` set raw
    \<and> (\<forall>i<length ks. ks ! i \<le> day \<and> (Suc i < length ks \<longrightarrow> day < ks ! Suc i) \<longrightarrow>
          lookupRP m ks t
            = Some (Some (snd (last (filter (\<lambda>p. utcMidnight (fst p) = ks ! i) raw)))))
    \<and> ((\<forall>k\<in>set ks. day < k) \<longrightarrow> lookupRP m ks t = Some None)"
proof -
  have srt: "sorted ks" "distinct ks"
    using assms(2,3) distinct_buildDayMap [of raw] by (simp_all add: sortedKeysOf_props)
  have keys: "set ks = fst ` set m" using assms(3) by (simp add: sortedKeysOf_props)
  have days: "set ks = (\<lambda>p. utcMidnight (fst p)) ` set raw"
    using keys assms(2) by (simp add: keys_buildDayMap)
  have len: "int (length ks) \<le> 2 ^ 30"
    using days_bound [OF assms(1)] assms(2,3) by (simp add: sortedKeysOf_props)
  note main = lookupRP_sorted [OF srt len keys assms(5), folded assms(4)]
  have stored: "map_of m (ks ! i) = Some (snd (last (filter (\<lambda>p. utcMidnight (fst p) = ks ! i) raw)))"
    if "i < length ks" for i
  proof -
    have "ks ! i \<in> (\<lambda>p. utcMidnight (fst p)) ` set raw"
      using that days nth_mem by blast
    then show ?thesis unfolding assms(2) by (rule map_of_buildDayMap)
  qed
  show ?thesis using srt days main stored by auto
qed

theorem lookupRP_forward_fill_witness:
  "timeOk 1577836800000 \<and> timeOk 1577840400000 \<and> timeOk 1578700800000
   \<and> lookupRP (buildDayMap [(1577836800000, 7000), (1577840400000, 7100), (1578700800000, 8000)])
        (sortedKeysOf (buildDayMap [(1577836800000, 7000), (1577840400000, 7100), (1578700800000, 8000)]))
        1578000000000 = Some (Some 7100)
   \<and> lookupRP (buildDayMap [(1577836800000, 7000), (1577840400000, 7100), (1578700800000, 8000)])
        (sortedKeysOf (buildDayMap [(1577836800000, 7000), (1577840400000, 7100), (1578700800000, 8000)]))
        0 = Some None"
proof -
  let ?raw = "[(1577836800000, 7000), (1577840400000, 7100), (1578700800000, 8000 :: number)]"
  have v: "\<forall>p\<in>set ?raw. timeOk (fst p)" by (simp add: timeOk_def)
  have m: "buildDayMap ?raw = [(1577836800000, 7100), (1578700800000, 8000)]"
    by (simp add: buildDayMap_def utcMidnight_def msPerDay_def)
  have ks: "sortedKeysOf (buildDayMap ?raw) = [1577836800000, 1578700800000]"
    by (simp add: m sortedKeysOf_def)
  have d1: "utcMidnight 1578000000000 = 1577923200000" and d0: "utcMidnight 0 = 0"
    by (simp_all add: utcMidnight_def msPerDay_def)
  have t1: "timeOk 1578000000000" and t0: "timeOk 0" by (simp_all add: timeOk_def)
  from lookupRP_forward_fill [OF v refl refl refl t1,
      THEN conjunct2, THEN conjunct2, THEN conjunct2, THEN conjunct1, rule_format, of 0]
  have "lookupRP (buildDayMap ?raw) (sortedKeysOf (buildDayMap ?raw)) 1578000000000
          = Some (Some 7100)"
    by (simp add: ks d1 utcMidnight_def msPerDay_def)
  moreover from lookupRP_forward_fill [OF v refl refl refl t0]
  have "lookupRP (buildDayMap ?raw) (sortedKeysOf (buildDayMap ?raw)) 0 = Some None"
    by (simp add: ks d0)
  ultimately show ?thesis by (simp add: timeOk_def)
qed




text \<open>
  The bound is what keeps the reads inside.  On an array of \<open>2^30 + 1\<close> elements, which no
  day map of time values has, \<^verbatim>\<open>(lo + hi) >> 1\<close> wraps and the last probe reads index
  \<open>- 2^30\<close>.
\<close>

lemma probe_wraps_beyond_bound:
  "length (replicate 1073741825 (- 86400000 :: int)) < 2 ^ 32
   \<and> lookupRP [(- 86400000, 42)] (replicate 1073741825 (- 86400000)) 0 = Some (Some 42)
   \<and> \<not> allReadsInBounds [(- 86400000, 42)] (replicate 1073741825 (- 86400000)) 0"
  by (simp add: allReadsInBounds_def lookupRP_reads_def lookupRP_def bsearch.simps sar1_def
      ToInt32_def arrayGet_def inBounds_def startOfDay_def timeOk_def mapGet_def utcMidnight_def
      msPerDay_def)

section \<open>Windowing and resampling\<close>

lemma DayFromYear_2018: "DayFromYear 2018 = 17532"
  by (simp add: DayFromYear_def)

lemma startDate_value: "startDate = 1514764800"
  by (simp add: startDate_def Date_UTC_def DayFromYear_def InLeapYear_def daysBeforeMonth_def
      msPerDay_def)

lemma windowed_filter:
  "windowed prices = filter (\<lambda>d. 1514764800 \<le> fst d \<and> 0 < snd d) prices"
proof -
  have "(1514764800 \<le> real_of_int x) = (1514764800 \<le> x)" for x :: int
    by linarith
  then show ?thesis by (simp add: windowed_def startDate_value)
qed

lemma windowed_example:
  "windowed (replicate 98 (0, 1) @ [(1577836800, p0), (1578700800, p10)])
     = (if 0 < p0 then [(1577836800, p0)] else []) @ (if 0 < p10 then [(1578700800, p10)] else [])"
  by (simp add: windowed_filter)

text \<open>
  C6 (windowing).  The threshold \<^verbatim>\<open>Date.UTC(2018, 0, 1) / 1000\<close> is 1514764800, the unix
  seconds of 2018-01-01T00:00:00Z (day 17532 of the epoch).  The filtered list is the input
  with exactly the points failing \<open>x \<ge> 1514764800\<close> or \<open>y > 0\<close> removed: order and
  multiplicity of the others are kept.
\<close>

theorem windowed_exact:
  "startDate = 1514764800
   \<and> 1514764800 = DayFromYear 2018 * 86400
   \<and> windowed prices = filter (\<lambda>d. 1514764800 \<le> fst d \<and> 0 < snd d) prices
   \<and> set (windowed prices) = {d. d \<in> set prices \<and> 1514764800 \<le> fst d \<and> 0 < snd d}
   \<and> count_list (windowed prices) d
       = (if 1514764800 \<le> fst d \<and> 0 < snd d then count_list prices d else 0)"
proof -
  have "count_list (filter P xs) d = (if P d then count_list xs d else 0)"
    for P and xs :: "(int \<times> number) list"
    by (induction xs) auto
  then show ?thesis
    by (auto simp: windowed_filter startDate_value DayFromYear_2018)
qed

theorem windowed_exact_witness:
  "windowed [(1514764799, 5), (1514764800, 6), (1600000000, 0), (1600000000, - 1), (1600000001, 7)]
     = [(1514764800, 6), (1600000001, 7)]
   \<and> count_list (windowed [(1514764799, 5), (1514764800, 6), (1600000000, 0), (1600000000, - 1),
        (1600000001, 7)]) (1514764800, 6) = 1"
  using windowed_exact [of "[(1514764799, 5), (1514764800, 6), (1600000000, 0),
      (1600000000, - 1), (1600000001, 7)]" "(1514764800, 6)"]
  by simp

lemma stride_indices:
  "filter (\<lambda>i. i mod 4 = 0) [0..<n] = map (\<lambda>k. 4 * k) [0..<(n + 3) div 4]"
proof (induction n)
  case 0
  then show ?case by simp
next
  case (Suc n)
  show ?case
  proof (cases "n mod 4 = 0")
    case True
    have "4 * (n div 4) = n"
      using True mult_div_mod_eq [of 4 n] by simp
    moreover have "(n + 3) div 4 = n div 4"
      using True div_mult_mod_eq [of "n + 3" 4] div_mult_mod_eq [of n 4]
        mod_add_left_eq [of n 4 3] by simp
    moreover have "(Suc n + 3) div 4 = Suc (n div 4)"
      using div_add_self2 [of 4 n] by simp
    ultimately have "(Suc n + 3) div 4 = Suc ((n + 3) div 4)" "4 * ((n + 3) div 4) = n"
      by simp_all
    then show ?thesis using Suc True by simp
  next
    case False
    have "(Suc n + 3) div 4 = Suc (n div 4)"
      using div_add_self2 [of 4 n] by simp
    moreover have "(n + 3) div 4 = Suc (n div 4)"
    proof -
      define q m where "q = n div 4" and "m = n mod 4"
      have e: "n = 4 * q + m" by (simp add: q_def m_def)
      have r: "1 \<le> m" "m < 4" using False by (simp_all add: m_def)
      have "(n + 3) div 4 = Suc q" by (rule div_nat_eqI) (use e r in auto)
      then show ?thesis by (simp add: q_def)
    qed
    ultimately have "(Suc n + 3) div 4 = (n + 3) div 4"
      by simp
    then show ?thesis using Suc False by simp
  qed
qed

lemma stride4_nth: "stride4 xs = map (\<lambda>k. xs ! (4 * k)) [0..<(length xs + 3) div 4]"
  by (simp add: stride4_def stride_indices comp_def)

lemma stride4_Nil_iff: "stride4 xs = [] \<longleftrightarrow> xs = []"
proof -
  show ?thesis by (simp add: stride4_nth div_eq_0_iff)
qed

lemma last_stride4:
  assumes "xs \<noteq> []"
  shows "last (stride4 xs) = xs ! (4 * ((length xs - 1) div 4))"
proof -
  have n: "0 < length xs" using assms by simp
  then have "length xs + 3 = (length xs - 1) + 4" by simp
  then have "(length xs + 3) div 4 = ((length xs - 1) + 4) div 4" by (simp only:)
  then have m: "(length xs + 3) div 4 = Suc ((length xs - 1) div 4)" by simp
  show ?thesis by (simp add: stride4_nth m last_map del: upt_Suc) 
qed

lemma resample_unfold:
  "xs \<noteq> [] \<Longrightarrow> resample xs =
     (if fst (last (stride4 xs)) \<noteq> fst (last xs) then stride4 xs @ [last xs] else stride4 xs)"
  by (simp add: resample_def lastHistorical_def stride4_Nil_iff Let_def)

lemma resample_Nil: "resample [] = []"
  by (simp add: resample_def stride4_def)

text \<open>
  C4 (resampling), as the code has it.  The stride keeps the points at positions
  0, 4, 8, \<dots>; the last filtered point is appended exactly when its timestamp differs from
  the timestamp of the last point kept.  So the output always ends at the last filtered
  timestamp, and it ends with the last filtered point itself whenever the stride kept
  that point or the timestamps of the sequence are pairwise distinct.
\<close>

theorem resample_ends_at_last:
  assumes "filtered \<noteq> []"
  shows "stride4 filtered = map (\<lambda>k. filtered ! (4 * k)) [0..<(length filtered + 3) div 4]
    \<and> resample filtered =
        (if fst (last (stride4 filtered)) \<noteq> fst (last filtered)
         then stride4 filtered @ [last filtered] else stride4 filtered)
    \<and> fst (last (resample filtered)) = fst (last filtered)
    \<and> ((length filtered - 1) mod 4 = 0 \<longrightarrow>
          resample filtered = stride4 filtered \<and> last (resample filtered) = last filtered)
    \<and> (distinct (map fst filtered) \<longrightarrow> last (resample filtered) = last filtered)"
proof -
  let ?n = "length filtered"
  have n: "0 < ?n" using assms by simp
  have ne: "stride4 filtered \<noteq> []" using assms by (simp add: stride4_Nil_iff)
  have unfold: "resample filtered =
        (if fst (last (stride4 filtered)) \<noteq> fst (last filtered)
         then stride4 filtered @ [last filtered] else stride4 filtered)"
    using assms by (rule resample_unfold)
  have lastx: "last filtered = filtered ! (?n - 1)"
    using assms by (rule last_conv_nth)
  have kept: "last (stride4 filtered) = filtered ! (4 * ((?n - 1) div 4))"
    using assms by (rule last_stride4)
  have aligned: "last (stride4 filtered) = last filtered" if "(?n - 1) mod 4 = 0"
  proof -
    have "4 * ((?n - 1) div 4) = ?n - 1"
      using that mult_div_mod_eq [of 4 "?n - 1"] by simp
    then show ?thesis by (simp add: kept lastx)
  qed
  have dist: "last (resample filtered) = last filtered" if d: "distinct (map fst filtered)"
  proof (cases "(?n - 1) mod 4 = 0")
    case True
    then show ?thesis using aligned unfold by simp
  next
    case False
    then have lt: "4 * ((?n - 1) div 4) < ?n - 1"
      using mult_div_mod_eq [of 4 "?n - 1"] by linarith
    have "(map fst filtered ! (4 * ((?n - 1) div 4)) = map fst filtered ! (?n - 1))
        = (4 * ((?n - 1) div 4) = ?n - 1)"
      by (rule nth_eq_iff_index_eq [OF d]) (use lt n in simp_all)
    then have "map fst filtered ! (4 * ((?n - 1) div 4)) \<noteq> map fst filtered ! (?n - 1)"
      using lt by simp
    moreover have "map fst filtered ! (4 * ((?n - 1) div 4)) = fst (filtered ! (4 * ((?n - 1) div 4)))"
      using lt by (intro nth_map) simp
    moreover have "map fst filtered ! (?n - 1) = fst (filtered ! (?n - 1))"
      using n by (intro nth_map) simp
    ultimately have "fst (last (stride4 filtered)) \<noteq> fst (last filtered)"
      by (simp add: kept lastx)
    then show ?thesis by (simp add: unfold)
  qed
  have ends: "fst (last (resample filtered)) = fst (last filtered)"
    by (simp add: unfold)
  show ?thesis
    using unfold ends aligned dist by (simp add: stride4_nth)
qed

theorem resample_ends_at_last_witness:
  "resample [(1, 10), (2, 20), (3, 30), (4, 40), (5, 50), (6, 60 :: number)]
      = [(1, 10), (5, 50), (6, 60)]
   \<and> resample [(1, 10), (2, 20), (3, 30), (4, 40), (5, 50 :: number)] = [(1, 10), (5, 50)]"
proof -
  have a: "stride4 [(1, 10), (2, 20), (3, 30), (4, 40), (5, 50), (6, 60 :: number)]
      = [(1 :: int, 10), (5, 50)]"
    and b: "stride4 [(1, 10), (2, 20), (3, 30), (4, 40), (5, 50 :: number)]
      = [(1 :: int, 10), (5, 50)]"
    by (simp_all add: stride4_def upt_rec)
  have ne: "[(1, 10), (2, 20), (3, 30), (4, 40), (5, 50), (6, 60 :: number)] \<noteq> ([] :: (int \<times> number) list)"
    "[(1, 10), (2, 20), (3, 30), (4, 40), (5, 50 :: number)] \<noteq> ([] :: (int \<times> number) list)"
    by simp_all
  from resample_ends_at_last [OF ne(1), THEN conjunct2, THEN conjunct1]
  have "resample [(1, 10), (2, 20), (3, 30), (4, 40), (5, 50), (6, 60 :: number)]
      = [(1, 10), (5, 50), (6, 60)]"
    by (simp add: a)
  moreover from resample_ends_at_last [OF ne(2), THEN conjunct2, THEN conjunct1]
  have "resample [(1, 10), (2, 20), (3, 30), (4, 40), (5, 50 :: number)] = [(1, 10), (5, 50)]"
    by (simp add: b)
  ultimately show ?thesis by simp
qed

text \<open>
  Two filtered points with one timestamp: the stride keeps the first, the timestamps are
  equal, and the last point (the latest price) is not in the output.
\<close>

theorem resample_counterexample:
  "resample [(1600000000, 100), (1600000000, 200)] = [(1600000000, 100)]
   \<and> last (resample [(1600000000, 100), (1600000000, 200)])
       \<noteq> last [(1600000000, 100), (1600000000, 200 :: number)]"
  by (simp add: resample_def stride4_def lastHistorical_def upt_rec)

section \<open>The parts of the handler\<close>

lemma Math_round_of_int: "Math_round (of_int n) = n"
  by (simp add: Math_round_def)

lemma those_map_returns:
  "\<forall>x\<in>set xs. \<exists>y. f x = Some y \<Longrightarrow> \<exists>ys. those (map f xs) = Some ys"
  by (induction xs) auto

lemma those_map_elems:
  "those (map f xs) = Some ys \<Longrightarrow> y \<in> set ys \<Longrightarrow> \<exists>x\<in>set xs. f x = Some y"
  by (induction xs arbitrary: ys) (auto split: option.splits)

lemma those_map_length:
  "those (map f xs) = Some ys \<Longrightarrow> length ys = length xs"
  by (induction xs arbitrary: ys) (auto split: option.splits)

lemma cohortLookup_returns:
  "feedFits ks \<Longrightarrow> \<exists>v. cohortLookup m ks t otherwise = Some v"
  by (auto simp: cohortLookup_def feedFits_def fitsArray_def lookupRP_returns
      split: option.splits)

lemma chartPoint_returns:
  assumes "seriesFits S"
  shows "\<exists>c. chartPoint S d = Some c"
proof -
  have "length (rpKeys S) < 2 ^ 32"
    using assms by (simp add: seriesFits_def fitsArray_def)
  from lookupRP_returns [OF this]
  obtain found where "lookupRP (rpMap S) (rpKeys S) (fst d * 1000) = Some found"
    by blast
  moreover have fs: "feedFits (sthKeys S)" and fl: "feedFits (lthKeys S)"
    using assms by (simp_all add: seriesFits_def)
  from cohortLookup_returns [OF fs] cohortLookup_returns [OF fl]
  obtain s l where "cohortLookup (sthMap S) (sthKeys S) (fst d * 1000) None = Some s"
    and "cohortLookup (lthMap S) (lthKeys S) (fst d * 1000) None = Some l"
    by blast
  ultimately show ?thesis by (simp add: chartPoint_def)
qed

lemma chartPoint_shape:
  "chartPoint S d = Some c \<Longrightarrow>
   \<exists>v s l. c = compositeRecord (fst d * 1000) (snd d) v s l
     \<and> cohortLookup (sthMap S) (sthKeys S) (fst d * 1000) None = Some s
     \<and> cohortLookup (lthMap S) (lthKeys S) (fst d * 1000) None = Some l"
  by (auto simp: chartPoint_def Let_def split: bind_splits)

lemma chartData_returns:
  "seriesFits S \<Longrightarrow> \<exists>records. chartData S sampled = Some records"
  unfolding chartData_def by (intro those_map_returns) (simp add: chartPoint_returns)

lemma chartData_exact:
  assumes "sthMap S = None" "lthMap S = None"
    and "\<forall>d\<in>set sampled. timeOk (fst d * 1000)
           \<and> map_of (rpMap S) (utcMidnight (fst d * 1000)) = Some (f d)"
  shows "chartData S sampled
     = Some (map (\<lambda>d. compositeRecord (fst d * 1000) (snd d) (f d) None None) sampled)"
  using assms(3)
proof (induction sampled)
  case Nil
  then show ?case by (simp add: chartData_def)
next
  case (Cons d ds)
  have "chartPoint S d = Some (compositeRecord (fst d * 1000) (snd d) (f d) None None)"
    using Cons.prems assms(1,2)
    by (simp add: chartPoint_def Let_def lookupRP_exact cohortLookup_def)
  then show ?case using Cons by (simp add: chartData_def)
qed

lemma livePoint_returns:
  assumes "seriesFits S"
  shows "\<exists>c. livePoint S a b c' p now = Some c"
proof -
  have "length (rpKeys S) < 2 ^ 32"
    using assms by (simp add: seriesFits_def fitsArray_def)
  from lookupRP_returns [OF this]
  obtain found where "lookupRP (rpMap S) (rpKeys S) now = Some found"
    by blast
  moreover have fs: "feedFits (sthKeys S)" and fl: "feedFits (lthKeys S)"
    using assms by (simp_all add: seriesFits_def)
  from cohortLookup_returns [OF fs] cohortLookup_returns [OF fl]
  obtain s l where "cohortLookup (sthMap S) (sthKeys S) now (map_option of_int b) = Some s"
    and "cohortLookup (lthMap S) (lthKeys S) now (map_option of_int c') = Some l"
    by blast
  ultimately show ?thesis by (simp add: livePoint_def)
qed

lemma livePoint_shape:
  "livePoint S a b c' p now = Some c \<Longrightarrow>
   \<exists>v s l. c = compositeRecord now p v s l
     \<and> cohortLookup (sthMap S) (sthKeys S) now (map_option of_int b) = Some s
     \<and> cohortLookup (lthMap S) (lthKeys S) now (map_option of_int c') = Some l"
  by (auto simp: livePoint_def split: bind_splits)

lemma reconcile_returns:
  assumes "seriesFits S"
  shows "\<exists>final. reconcile S a b c' live now records = Some final"
proof (cases live)
  case None
  then show ?thesis by (simp add: reconcile_def)
next
  case (Some p)
  obtain c where "livePoint S a b c' p now = Some c"
    using livePoint_returns [OF assms] by blast
  then show ?thesis using Some by (simp add: reconcile_def)
qed

lemma reconcile_elems:
  assumes "reconcile S a b c' live now records = Some final" "x \<in> set final"
  shows "x \<in> set records \<or> (\<exists>p. livePoint S a b c' p now = Some x)"
proof (cases live)
  case None
  then show ?thesis using assms by (simp add: reconcile_def)
next
  case (Some p)
  show ?thesis
  proof (cases "p \<noteq> 0 \<and> 0 < length records")
    case False
    then show ?thesis using assms Some by (auto simp: reconcile_def)
  next
    case True
    then obtain cand where cand: "livePoint S a b c' p now = Some cand"
      and final: "final = (if 12 * 60 * 60 * 1000 < now - date (last records)
                    then records @ [cand] else records[length records - 1 := cand])"
      using assms(1) Some by (auto simp: reconcile_def split: bind_splits)
    have "set final \<subseteq> insert cand (set records)"
      using set_update_subset_insert [of records "length records - 1" cand]
      by (auto simp: final)
    then show ?thesis using assms(2) cand by auto
  qed
qed

lemma list_update_last: "xs \<noteq> [] \<Longrightarrow> xs[length xs - Suc 0 := c] = butlast xs @ [c]"
  by (cases xs rule: rev_cases) simp_all

lemma buildSeries_fits:
  assumes "fitsArray rpRaw" "feedFits sthRaw" "feedFits lthRaw"
  shows "seriesFits (buildSeries rpRaw sthRaw lthRaw)"
proof -
  have k: "fitsArray (sortedKeysOf (buildDayMap r))" if "fitsArray r" for r
    using that length_buildDayMap [of r]
    by (simp add: fitsArray_def sortedKeysOf_props) 
  have c: "feedFits (cohortKeys (cohortMap raw))" if "feedFits raw" for raw
    using that k by (auto simp: feedFits_def cohortKeys_def cohortMap_def split: option.splits)
  show ?thesis using assms k c by (simp add: seriesFits_def buildSeries_def)
qed

lemma GET_success:
  assumes "100 \<le> length rpRaw" "100 \<le> length prices" "timeOk (fst (last rpRaw))"
    and "chartData (buildSeries rpRaw sthRaw lthRaw) (resample (windowed prices)) = Some records"
    and "reconcile (buildSeries rpRaw sthRaw lthRaw) (Math_round (snd (last rpRaw)))
           (latestCohort sthRaw) (latestCohort lthRaw) live now records = Some final"
  shows "GET (Some rpRaw) sthRaw lthRaw (Some prices) live now =
    Some (Inr \<lparr> data = final,
                latestRP = Math_round (snd (last rpRaw)),
                latestRPDate = fst (last rpRaw),
                latestSTH = latestCohort sthRaw,
                latestLTH = latestCohort lthRaw,
                latestPrice = Math_round (currentPrice live (lastHistorical (windowed prices)) records),
                dataPoints = length final \<rparr>)"
  using assms by (simp add: GET_def Let_def)

lemma GET_Inr_cases:
  assumes "GET rpOpt sthRaw lthRaw hpOpt live now = Some (Inr r)"
  obtains rpRaw prices records where
    "rpOpt = Some rpRaw" "hpOpt = Some prices" "100 \<le> length rpRaw" "100 \<le> length prices"
    "timeOk (fst (last rpRaw))"
    "chartData (buildSeries rpRaw sthRaw lthRaw) (resample (windowed prices)) = Some records"
    "reconcile (buildSeries rpRaw sthRaw lthRaw) (Math_round (snd (last rpRaw)))
           (latestCohort sthRaw) (latestCohort lthRaw) live now records = Some (data r)"
    "latestPrice r = Math_round (currentPrice live (lastHistorical (windowed prices)) records)"
  using assms
  by (auto simp: GET_def Let_def split: option.splits if_splits bind_splits)

lemma GET_data_shape:
  assumes "GET rpOpt sthRaw lthRaw hpOpt live now = Some (Inr r)" "x \<in> set (data r)"
  shows "\<exists>dt pv v s l. x = compositeRecord dt pv v s l"
proof -
  from assms(1) obtain rpRaw prices records where
    cd: "chartData (buildSeries rpRaw sthRaw lthRaw) (resample (windowed prices)) = Some records"
    and rc: "reconcile (buildSeries rpRaw sthRaw lthRaw) (Math_round (snd (last rpRaw)))
           (latestCohort sthRaw) (latestCohort lthRaw) live now records = Some (data r)"
    by (rule GET_Inr_cases)
  from reconcile_elems [OF rc assms(2)] show ?thesis
  proof
    assume "x \<in> set records"
    then obtain d where "chartPoint (buildSeries rpRaw sthRaw lthRaw) d = Some x"
      using cd those_map_elems unfolding chartData_def by fastforce
    then show ?thesis using chartPoint_shape by blast
  next
    assume "\<exists>p. livePoint (buildSeries rpRaw sthRaw lthRaw) (Math_round (snd (last rpRaw)))
           (latestCohort sthRaw) (latestCohort lthRaw) p now = Some x"
    then show ?thesis using livePoint_shape by blast
  qed
qed

lemma GET_no_cohorts_no_live:
  assumes "100 \<le> length rpRaw" "100 \<le> length prices" "timeOk (fst (last rpRaw))"
    and "resample (windowed prices) = sampled"
    and "\<forall>d\<in>set sampled. timeOk (fst d * 1000)
           \<and> map_of (buildDayMap rpRaw) (utcMidnight (fst d * 1000)) = Some (f d)"
  shows "GET (Some rpRaw) None None (Some prices) None now =
    Some (Inr \<lparr> data = map (\<lambda>d. compositeRecord (fst d * 1000) (snd d) (f d) None None) sampled,
                latestRP = Math_round (snd (last rpRaw)),
                latestRPDate = fst (last rpRaw),
                latestSTH = None,
                latestLTH = None,
                latestPrice = Math_round (currentPrice None (lastHistorical (windowed prices))
                  (map (\<lambda>d. compositeRecord (fst d * 1000) (snd d) (f d) None None) sampled)),
                dataPoints = length sampled \<rparr>)"
proof -
  let ?S = "buildSeries rpRaw None None"
  have "chartData ?S (resample (windowed prices))
     = Some (map (\<lambda>d. compositeRecord (fst d * 1000) (snd d) (f d) None None) sampled)"
    unfolding assms(4) using assms(5)
    by (intro chartData_exact) (simp_all add: buildSeries_def cohortMap_def)
  moreover have "reconcile ?S (Math_round (snd (last rpRaw))) (latestCohort None)
      (latestCohort None) None now
      (map (\<lambda>d. compositeRecord (fst d * 1000) (snd d) (f d) None None) sampled)
     = Some (map (\<lambda>d. compositeRecord (fst d * 1000) (snd d) (f d) None None) sampled)"
    by (simp add: reconcile_def)
  ultimately show ?thesis
    using GET_success [OF assms(1,2,3), of None None _ None now]
    by (simp add: latestCohort_def)
qed

lemma GET_two_days:
  assumes "100 \<le> length rpRaw" "100 \<le> length prices" "timeOk (fst (last rpRaw))"
    and "map_of (buildDayMap rpRaw) (day0 * 1000) = Some v0"
    and "map_of (buildDayMap rpRaw) (day10 * 1000) = Some v10"
    and "windowed prices = [(day0, p0), (day10, p10)]"
    and "day0 mod 86400 = 0" "day10 = day0 + 10 * 86400"
    and "timeOk (day0 * 1000)" "timeOk (day10 * 1000)"
  shows "GET (Some rpRaw) None None (Some prices) None now =
    Some (Inr \<lparr> data = [compositeRecord (day0 * 1000) p0 v0 None None,
                         compositeRecord (day10 * 1000) p10 v10 None None],
                latestRP = Math_round (snd (last rpRaw)),
                latestRPDate = fst (last rpRaw),
                latestSTH = None,
                latestLTH = None,
                latestPrice = Math_round p10,
                dataPoints = 2 \<rparr>)"
proof -
  have ne: "day0 \<noteq> day10" using assms(8) by simp
  have s: "resample (windowed prices) = [(day0, p0), (day10, p10)]"
    using ne by (simp add: assms(6) resample_def stride4_def lastHistorical_def upt_rec)
  have "day10 mod 86400 = 0" using assms(7,8) by (auto simp: mod_eq_0_iff_dvd)
  then have days: "utcMidnight (day0 * 1000) = day0 * 1000" "utcMidnight (day10 * 1000) = day10 * 1000"
    using assms(7) by (simp_all add: utcMidnight_seconds)
  have hit: "\<forall>d\<in>set [(day0, p0), (day10, p10)]. timeOk (fst d * 1000)
      \<and> map_of (buildDayMap rpRaw) (utcMidnight (fst d * 1000))
        = Some ((\<lambda>d. if fst d = day0 then v0 else v10) d)"
    using ne assms(4,5,9,10) days by simp
  show ?thesis
    using GET_no_cohorts_no_live [OF assms(1,2,3) s hit, of now] ne
    by (simp add: assms(6) currentPrice_def lastHistorical_def)
qed

section \<open>The gate and the end-to-end example\<close>

text \<open>
  C2 (hard-failure gate), as the code has it.  The gate counts raw points, before the
  days are normalised: when a series is null or has fewer than 100 raw points the handler
  returns the status 502 error (the realized-price error first) and no data.
\<close>

theorem GET_gate:
  assumes "tooShort realizedPriceRaw \<or> tooShort historicalPrices"
  shows "GET realizedPriceRaw sthRPRaw lthRPRaw historicalPrices livePrice now
     = Some (Inl (if tooShort realizedPriceRaw then rpUnavailable else historyUnavailable))"
  using assms by (auto simp: GET_def tooShort_def split: option.splits)

theorem GET_gate_witness:
  "GET (Some (replicate 50 (0, 1))) None None None None 0 = Some (Inl rpUnavailable)
   \<and> GET (Some (replicate 100 (0, 1))) None None (Some (replicate 99 (0, 1))) None 0
       = Some (Inl historyUnavailable)"
proof -
  have a: "tooShort (Some (replicate 50 (0 :: int, 1 :: number)))"
    and b: "tooShort (Some (replicate 99 (0 :: int, 1 :: number)))"
    and c: "\<not> tooShort (Some (replicate 100 (0 :: int, 1 :: number)))"
    by (simp_all add: tooShort_def)
  show ?thesis
    using GET_gate [of "Some (replicate 50 (0, 1))" None None None None 0]
      GET_gate [of "Some (replicate 100 (0, 1))" "Some (replicate 99 (0, 1))" None None None 0]
      a b c
    by simp
qed

text \<open>
  One hundred raw valuation points that fall on two days (two normalised days, fewer
  than 100) pass the gate, and the handler returns data.
\<close>

theorem GET_gate_counterexample:
  "length (buildDayMap (replicate 50 (1577836800000, 20000) @ replicate 50 (1578700800000, 22000)))
     = 2
   \<and> GET (Some (replicate 50 (1577836800000, 20000) @ replicate 50 (1578700800000, 22000)))
        None None (Some (replicate 98 (0, 1) @ [(1577836800, 21000), (1578700800, 23500)])) None 0
     = Some (Inr \<lparr> data = [compositeRecord 1577836800000 21000 20000 None None,
                           compositeRecord 1578700800000 23500 22000 None None],
                  latestRP = 22000, latestRPDate = 1578700800000, latestSTH = None,
                  latestLTH = None, latestPrice = 23500, dataPoints = 2 \<rparr>)"
proof -
  let ?rp = "replicate 50 (1577836800000 :: int, 20000 :: number) @ replicate 50 (1578700800000, 22000)"
  let ?hp = "replicate 98 (0 :: int, 1 :: number) @ [(1577836800, 21000), (1578700800, 23500)]"
  have 1: "100 \<le> length ?rp" and 2: "100 \<le> length ?hp" and 3: "timeOk (fst (last ?rp))"
    by (simp_all add: timeOk_def)
  have 4: "map_of (buildDayMap ?rp) (1577836800 * 1000) = Some 20000"
    and 5: "map_of (buildDayMap ?rp) (1578700800 * 1000) = Some 22000"
    by (simp_all add: buildDayMap_example)
  have 6: "windowed ?hp = [(1577836800, 21000), (1578700800, 23500)]"
    by (simp add: windowed_example)
  have 7: "(1577836800 :: int) mod 86400 = 0" and 8: "(1578700800 :: int) = 1577836800 + 10 * 86400"
    by simp_all
  have 9: "timeOk (1577836800 * 1000)" and 10: "timeOk (1578700800 * 1000)"
    by (simp_all add: timeOk_def)
  have "length (buildDayMap ?rp) = 2" by (simp add: buildDayMap_example)
  moreover have "Math_round 22000 = 22000" "Math_round 23500 = 23500"
    by (simp_all add: Math_round_def)
  ultimately show ?thesis
    using GET_two_days [OF 1 2 3 4 5 6 7 8 9 10, of 0] by simp
qed

text \<open>
  C7 (end-to-end example), as the code has it.  The gate needs at least 100 raw points in
  each series.  With a primary series of at least 100 raw points, all at time values,
  whose day map is exactly \<open>{day0: 20000, day10: 22000}\<close>, a historical series of at least
  100 points of which exactly the points at day0 (21000) and day10 (23500) pass the window,
  no cohort data and no live price, the handler returns exactly the two records of the
  example.
\<close>

theorem GET_two_day_example:
  assumes "100 \<le> length rpRaw" "100 \<le> length prices" "\<forall>p\<in>set rpRaw. timeOk (fst p)"
    and "map_of (buildDayMap rpRaw) = [day0 * 1000 \<mapsto> 20000, day10 * 1000 \<mapsto> 22000]"
    and "windowed prices = [(day0, 21000), (day10, 23500)]"
    and "day0 mod 86400 = 0" "day10 = day0 + 10 * 86400" "timeOk (day10 * 1000)"
  shows "GET (Some rpRaw) None None (Some prices) None now =
    Some (Inr \<lparr> data =
                  [\<lparr> date = day0 * 1000, price = 21000, rp = 20000, rp_0_8 = Num 16000,
                     rp_1_25 = Num 25000, rp_1_7 = Num 34000, rp_2_4 = Num 48000,
                     rp_3_2 = Num 64000, sth_rp = None, lth_rp = None \<rparr>,
                   \<lparr> date = day10 * 1000, price = 23500, rp = 22000, rp_0_8 = Num 17600,
                     rp_1_25 = Num 27500, rp_1_7 = Num 37400, rp_2_4 = Num 52800,
                     rp_3_2 = Num 70400, sth_rp = None, lth_rp = None \<rparr>],
                latestRP = Math_round (snd (last rpRaw)),
                latestRPDate = fst (last rpRaw),
                latestSTH = None,
                latestLTH = None,
                latestPrice = 23500,
                dataPoints = 2 \<rparr>)"
proof -
  have "rpRaw \<noteq> []" using assms(1) by auto
  then have tl: "timeOk (fst (last rpRaw))" using assms(3) by simp
  have ne: "day0 * 1000 \<noteq> day10 * 1000" using assms(7) by simp
  have v0: "map_of (buildDayMap rpRaw) (day0 * 1000) = Some 20000"
    and v10: "map_of (buildDayMap rpRaw) (day10 * 1000) = Some 22000"
    using ne by (simp_all add: assms(4))
  have "(day0, 21000) \<in> set (windowed prices)" by (simp add: assms(5))
  then have "1514764800 \<le> day0" by (simp add: windowed_filter)
  then have t0: "timeOk (day0 * 1000)"
    using assms(7,8) by (simp add: timeOk_def)
  note run = GET_two_days [OF assms(1,2) tl v0 v10 assms(5,6,7) t0 assms(8), of now]
  show ?thesis
    unfolding run compositeRecord_def bands_of_20000 bands_of_22000
    by (simp add: Math_round_def roundIfTruthy_def)
qed

theorem GET_two_day_example_witness:
  "timeOk 1577836800000 \<and> timeOk 1578700800000
   \<and> GET (Some (replicate 50 (1577836800000, 20000) @ replicate 50 (1578700800000, 22000)))
        None None (Some (replicate 98 (0, 1) @ [(1577836800, 21000), (1578700800, 23500)])) None 0
     = Some (Inr \<lparr> data =
                  [\<lparr> date = 1577836800000, price = 21000, rp = 20000, rp_0_8 = Num 16000,
                     rp_1_25 = Num 25000, rp_1_7 = Num 34000, rp_2_4 = Num 48000,
                     rp_3_2 = Num 64000, sth_rp = None, lth_rp = None \<rparr>,
                   \<lparr> date = 1578700800000, price = 23500, rp = 22000, rp_0_8 = Num 17600,
                     rp_1_25 = Num 27500, rp_1_7 = Num 37400, rp_2_4 = Num 52800,
                     rp_3_2 = Num 70400, sth_rp = None, lth_rp = None \<rparr>],
                latestRP = 22000, latestRPDate = 1578700800000, latestSTH = None,
                latestLTH = None, latestPrice = 23500, dataPoints = 2 \<rparr>)"
proof -
  let ?rp = "replicate 50 (1577836800000 :: int, 20000 :: number) @ replicate 50 (1578700800000, 22000)"
  let ?hp = "replicate 98 (0 :: int, 1 :: number) @ [(1577836800, 21000), (1578700800, 23500)]"
  have 1: "100 \<le> length ?rp" and 2: "100 \<le> length ?hp"
    by simp_all
  have 3: "\<forall>p\<in>set ?rp. timeOk (fst p)" by (auto simp: timeOk_def)
  have 4: "map_of (buildDayMap ?rp)
      = [1577836800 * 1000 \<mapsto> 20000, (1578700800 :: int) * 1000 \<mapsto> 22000]"
    by (auto simp: buildDayMap_example fun_eq_iff)
  have 5: "windowed ?hp = [(1577836800, 21000), (1578700800, 23500)]"
    by (simp add: windowed_example)
  have 6: "(1577836800 :: int) mod 86400 = 0" and 7: "(1578700800 :: int) = 1577836800 + 10 * 86400"
    by simp_all
  have 8: "timeOk (1578700800 * 1000)" by (simp add: timeOk_def)
  show ?thesis
    using GET_two_day_example [OF 1 2 3 4 5 6 7 8, of 0]
    by (simp add: Math_round_def timeOk_def)
qed

text \<open>
  The example's inputs as written, two raw points in each series, stop at the gate.
\<close>

theorem GET_two_day_example_counterexample:
  "GET (Some [(1577836800000, 20000), (1578700800000, 22000)]) None None
       (Some [(1577836800, 21000), (1578700800, 23500)]) None 0
     = Some (Inl rpUnavailable)"
  by (simp add: GET_def)

section \<open>Composite records: bands and cohort fields\<close>

text \<open>
  C3 (band order), as the code has it.  For every record of a successful response there
  is a realized price \<open>v\<close>, the value looked up, such that \<open>rp\<close> is \<open>v\<close> rounded and each
  band is the double product of \<open>v\<close> and the double of its literal, rounded; a product
  that overflows leaves the band at Infinity.  Each band is rounded on its own, so for a
  small realized price neighbouring bands can round to the same integer, and for a huge
  one the upper bands are both Infinity.  When \<open>rp > 0\<close> the bands are ordered, possibly
  with ties, provided that the 0.8 band did not overflow, which it does not for any \<open>v\<close>
  below \<open>2^1024\<close>, that is for every double; when \<open>rp \<ge> 5\<close> and the 2.4 band did not
  overflow, the order is strict.
\<close>

theorem band_order:
  assumes "GET rpOpt sthRaw lthRaw hpOpt live now = Some (Inr r)" "x \<in> set (data r)"
  shows "\<exists>v. rp x = Math_round v
       \<and> rp_0_8 x = Math_round_ext (jsTimes v (roundToDouble 0.8))
       \<and> rp_1_25 x = Math_round_ext (jsTimes v (roundToDouble 1.25))
       \<and> rp_1_7 x = Math_round_ext (jsTimes v (roundToDouble 1.7))
       \<and> rp_2_4 x = Math_round_ext (jsTimes v (roundToDouble 2.4))
       \<and> rp_3_2 x = Math_round_ext (jsTimes v (roundToDouble 3.2))
       \<and> (v < 2 ^ 1024 \<longrightarrow> rp_0_8 x \<noteq> PosInfinity)
       \<and> (0 < rp x \<and> rp_0_8 x \<noteq> PosInfinity \<longrightarrow>
            leExt (rp_0_8 x) (Num (rp x)) \<and> leExt (Num (rp x)) (rp_1_25 x)
            \<and> leExt (rp_1_25 x) (rp_1_7 x) \<and> leExt (rp_1_7 x) (rp_2_4 x)
            \<and> leExt (rp_2_4 x) (rp_3_2 x))
       \<and> (5 \<le> rp x \<and> rp_2_4 x \<noteq> PosInfinity \<longrightarrow>
            lessExt (rp_0_8 x) (Num (rp x)) \<and> lessExt (Num (rp x)) (rp_1_25 x)
            \<and> lessExt (rp_1_25 x) (rp_1_7 x) \<and> lessExt (rp_1_7 x) (rp_2_4 x)
            \<and> lessExt (rp_2_4 x) (rp_3_2 x))"
proof -
  obtain dt pv v s l where x: "x = compositeRecord dt pv v s l"
    using GET_data_shape [OF assms] by blast
  have fields: "rp x = Math_round v"
    "rp_0_8 x = Math_round_ext (jsTimes v (roundToDouble 0.8))"
    "rp_1_25 x = Math_round_ext (jsTimes v (roundToDouble 1.25))"
    "rp_1_7 x = Math_round_ext (jsTimes v (roundToDouble 1.7))"
    "rp_2_4 x = Math_round_ext (jsTimes v (roundToDouble 2.4))"
    "rp_3_2 x = Math_round_ext (jsTimes v (roundToDouble 3.2))"
    unfolding x compositeRecord_def by simp_all
  have fin: "rp_0_8 x \<noteq> PosInfinity" if "v < 2 ^ 1024"
    unfolding fields using that by (rule band_0_8_finite)
  have weak: "leExt (rp_0_8 x) (Num (rp x)) \<and> leExt (Num (rp x)) (rp_1_25 x)
            \<and> leExt (rp_1_25 x) (rp_1_7 x) \<and> leExt (rp_1_7 x) (rp_2_4 x)
            \<and> leExt (rp_2_4 x) (rp_3_2 x)"
    if "0 < rp x \<and> rp_0_8 x \<noteq> PosInfinity"
  proof -
    from that have "0 < Math_round v" "jsTimes v (roundToDouble 0.8) \<noteq> PosInfinity"
      unfolding fields by simp_all
    then show ?thesis unfolding fields using bands_weak [of v] by blast
  qed
  have strict: "lessExt (rp_0_8 x) (Num (rp x)) \<and> lessExt (Num (rp x)) (rp_1_25 x)
            \<and> lessExt (rp_1_25 x) (rp_1_7 x) \<and> lessExt (rp_1_7 x) (rp_2_4 x)
            \<and> lessExt (rp_2_4 x) (rp_3_2 x)"
    if "5 \<le> rp x \<and> rp_2_4 x \<noteq> PosInfinity"
  proof -
    from that have "5 \<le> Math_round v" "jsTimes v (roundToDouble 2.4) \<noteq> PosInfinity"
      unfolding fields by simp_all
    then show ?thesis unfolding fields by (rule bands_strict)
  qed
  show ?thesis using fields fin weak strict by blast
qed

theorem band_order_witness:
  "rp (compositeRecord 1577836800000 21000 20000 None None) = 20000
   \<and> rp_0_8 (compositeRecord 1577836800000 21000 20000 None None) = Num 16000
   \<and> rp_2_4 (compositeRecord 1577836800000 21000 20000 None None) = Num 48000
   \<and> lessExt (rp_0_8 (compositeRecord 1577836800000 21000 20000 None None))
       (Num (rp (compositeRecord 1577836800000 21000 20000 None None)))
   \<and> lessExt (Num (rp (compositeRecord 1577836800000 21000 20000 None None)))
       (rp_1_25 (compositeRecord 1577836800000 21000 20000 None None))
   \<and> lessExt (rp_1_25 (compositeRecord 1577836800000 21000 20000 None None))
       (rp_1_7 (compositeRecord 1577836800000 21000 20000 None None))
   \<and> lessExt (rp_1_7 (compositeRecord 1577836800000 21000 20000 None None))
       (rp_2_4 (compositeRecord 1577836800000 21000 20000 None None))
   \<and> lessExt (rp_2_4 (compositeRecord 1577836800000 21000 20000 None None))
       (rp_3_2 (compositeRecord 1577836800000 21000 20000 None None))"
proof -
  let ?rp = "replicate 50 (1577836800000 :: int, 20000 :: number) @ replicate 50 (1578700800000, 22000)"
  let ?hp = "replicate 98 (0 :: int, 1 :: number) @ [(1577836800, 21000), (1578700800, 23500)]"
  let ?c = "compositeRecord 1577836800000 21000 20000 None None"
  have 1: "100 \<le> length ?rp" and 2: "100 \<le> length ?hp" and 3: "timeOk (fst (last ?rp))"
    by (simp_all add: timeOk_def)
  have 4: "map_of (buildDayMap ?rp) (1577836800 * 1000) = Some 20000"
    and 5: "map_of (buildDayMap ?rp) (1578700800 * 1000) = Some 22000"
    by (simp_all add: buildDayMap_example)
  have 6: "windowed ?hp = [(1577836800, 21000), (1578700800, 23500)]"
    by (simp add: windowed_example)
  have 7: "(1577836800 :: int) mod 86400 = 0" and 8: "(1578700800 :: int) = 1577836800 + 10 * 86400"
    by simp_all
  have 9: "timeOk (1577836800 * 1000)" and 10: "timeOk (1578700800 * 1000)"
    by (simp_all add: timeOk_def)
  note run = GET_two_days [OF 1 2 3 4 5 6 7 8 9 10, of 0]
  have mem: "?c \<in> set (data \<lparr> data = [compositeRecord (1577836800 * 1000) 21000 20000 None None,
                         compositeRecord (1578700800 * 1000) 23500 22000 None None],
                latestRP = Math_round (snd (last ?rp)),
                latestRPDate = fst (last ?rp),
                latestSTH = None,
                latestLTH = None,
                latestPrice = Math_round 23500,
                dataPoints = 2 \<rparr>)"
    by simp
  have r: "rp ?c = 20000" by (simp add: compositeRecord_def Math_round_def)
  have b08: "rp_0_8 ?c = Num 16000" and b24: "rp_2_4 ?c = Num 48000"
    unfolding compositeRecord_def bands_of_20000 by simp_all
  from band_order [OF run mem]
  have "5 \<le> rp ?c \<and> rp_2_4 ?c \<noteq> PosInfinity \<longrightarrow>
            lessExt (rp_0_8 ?c) (Num (rp ?c)) \<and> lessExt (Num (rp ?c)) (rp_1_25 ?c)
            \<and> lessExt (rp_1_25 ?c) (rp_1_7 ?c) \<and> lessExt (rp_1_7 ?c) (rp_2_4 ?c)
            \<and> lessExt (rp_2_4 ?c) (rp_3_2 ?c)"
    by blast
  moreover have "5 \<le> rp ?c \<and> rp_2_4 ?c \<noteq> PosInfinity" by (simp add: r b24)
  ultimately have "lessExt (rp_0_8 ?c) (Num (rp ?c)) \<and> lessExt (Num (rp ?c)) (rp_1_25 ?c)
            \<and> lessExt (rp_1_25 ?c) (rp_1_7 ?c) \<and> lessExt (rp_1_7 ?c) (rp_2_4 ?c)
            \<and> lessExt (rp_2_4 ?c) (rp_3_2 ?c)"
    by blast
  then show ?thesis using r b08 b24 by blast
qed

text \<open>
  A realized price of 1 on the first day and of \<open>2^1023\<close> on the second.  The first
  record has \<open>rp = 1\<close>, and its bands 0.8 and 1.25 round to 1 as well, its bands 1.7 and
  2.4 both to 2.  The second has \<open>rp = 2^1023\<close>, and its bands 2.4 and 3.2 are both
  Infinity.
\<close>

theorem band_order_counterexample:
  "\<exists>r. GET (Some (replicate 50 (1577836800000, 1) @ replicate 50 (1578700800000, 2 ^ 1023)))
        None None (Some (replicate 98 (0, 1) @ [(1577836800, 21000), (1578700800, 23500)])) None 0
          = Some (Inr r)
     \<and> length (data r) = 2
     \<and> rp (data r ! 0) = 1 \<and> rp_0_8 (data r ! 0) = Num 1 \<and> rp_1_25 (data r ! 0) = Num 1
     \<and> rp_1_7 (data r ! 0) = Num 2 \<and> rp_2_4 (data r ! 0) = Num 2 \<and> rp_3_2 (data r ! 0) = Num 3
     \<and> \<not> lessExt (rp_0_8 (data r ! 0)) (Num (rp (data r ! 0)))
     \<and> rp (data r ! 1) = 2 ^ 1023
     \<and> rp_2_4 (data r ! 1) = PosInfinity \<and> rp_3_2 (data r ! 1) = PosInfinity
     \<and> \<not> lessExt (rp_2_4 (data r ! 1)) (rp_3_2 (data r ! 1))"
proof -
  let ?rp = "replicate 50 (1577836800000 :: int, 1 :: number) @ replicate 50 (1578700800000, 2 ^ 1023)"
  let ?hp = "replicate 98 (0 :: int, 1 :: number) @ [(1577836800, 21000), (1578700800, 23500)]"
  let ?a = "compositeRecord (1577836800 * 1000) 21000 1 None None"
  let ?b = "compositeRecord (1578700800 * 1000) 23500 (2 ^ 1023) None None"
  have 1: "100 \<le> length ?rp" and 2: "100 \<le> length ?hp" and 3: "timeOk (fst (last ?rp))"
    by (simp_all add: timeOk_def)
  have 4: "map_of (buildDayMap ?rp) (1577836800 * 1000) = Some 1"
    and 5: "map_of (buildDayMap ?rp) (1578700800 * 1000) = Some (2 ^ 1023)"
    by (simp_all add: buildDayMap_example)
  have 6: "windowed ?hp = [(1577836800, 21000), (1578700800, 23500)]"
    by (simp add: windowed_example)
  have 7: "(1577836800 :: int) mod 86400 = 0" and 8: "(1578700800 :: int) = 1577836800 + 10 * 86400"
    by simp_all
  have 9: "timeOk (1577836800 * 1000)" and 10: "timeOk (1578700800 * 1000)"
    by (simp_all add: timeOk_def)
  note run = GET_two_days [OF 1 2 3 4 5 6 7 8 9 10, of 0]
  have a: "rp ?a = 1" "rp_0_8 ?a = Num 1" "rp_1_25 ?a = Num 1" "rp_1_7 ?a = Num 2"
    "rp_2_4 ?a = Num 2" "rp_3_2 ?a = Num 3"
    unfolding compositeRecord_def bands_of_1 by (simp_all add: Math_round_def)
  have b: "rp ?b = 2 ^ 1023" "rp_2_4 ?b = PosInfinity" "rp_3_2 ?b = PosInfinity"
    unfolding compositeRecord_def band_2_4_overflow band_3_2_overflow
    by (simp_all add: Math_round_def)
  show ?thesis
    unfolding run using a b by simp
qed

text \<open>
  C9 (a cohort reading of zero becomes null).  In a record of the merge step and in the
  live candidate alike, a cohort lookup that returns the number 0 leaves the field null,
  as does an absent cohort series.
\<close>

theorem cohort_zero_is_null:
  "(chartPoint S d = Some x \<and> sthMap S = Some sm \<and> sthKeys S = Some sk
      \<and> lookupRP sm sk (fst d * 1000) = Some (Some 0) \<longrightarrow> sth_rp x = None)
   \<and> (chartPoint S d = Some x \<and> lthMap S = Some lm \<and> lthKeys S = Some lk
      \<and> lookupRP lm lk (fst d * 1000) = Some (Some 0) \<longrightarrow> lth_rp x = None)
   \<and> (chartPoint S d = Some x \<and> sthMap S = None \<longrightarrow> sth_rp x = None)
   \<and> (chartPoint S d = Some x \<and> lthMap S = None \<longrightarrow> lth_rp x = None)
   \<and> (livePoint S lastRP lastSTH lastLTH p now = Some y \<and> sthMap S = Some sm
      \<and> sthKeys S = Some sk \<and> lookupRP sm sk now = Some (Some 0) \<longrightarrow> sth_rp y = None)
   \<and> (livePoint S lastRP lastSTH lastLTH p now = Some y \<and> lthMap S = Some lm
      \<and> lthKeys S = Some lk \<and> lookupRP lm lk now = Some (Some 0) \<longrightarrow> lth_rp y = None)
   \<and> (livePoint S lastRP None lastLTH p now = Some y \<and> sthMap S = None \<longrightarrow> sth_rp y = None)
   \<and> (livePoint S lastRP lastSTH None p now = Some y \<and> lthMap S = None \<longrightarrow> lth_rp y = None)"
  by (auto simp: chartPoint_def livePoint_def Let_def cohortLookup_def compositeRecord_def
      roundIfTruthy_def split: bind_splits)

theorem cohort_zero_is_null_witness:
  "chartPoint \<lparr> rpMap = [(0, 5)], rpKeys = [0], sthMap = Some [(0, 0)], sthKeys = Some [0],
       lthMap = None, lthKeys = None \<rparr> (0, 10)
     = Some (compositeRecord 0 10 5 (Some 0) None)
   \<and> lookupRP [(0, 0)] [0] 0 = Some (Some 0)
   \<and> sth_rp (compositeRecord 0 10 5 (Some 0) None) = None"
proof -
  let ?S = "\<lparr> rpMap = [(0, 5)], rpKeys = [0], sthMap = Some [(0, 0)], sthKeys = Some [0],
       lthMap = None, lthKeys = None \<rparr>"
  have z: "utcMidnight 0 = 0" and v: "timeOk 0" by (simp_all add: utcMidnight_def timeOk_def)
  have l: "lookupRP [(0, 0)] [0] 0 = Some (Some 0)"
    by (rule lookupRP_exact [OF v]) (simp add: z)
  have r: "lookupRP [(0, 5)] [0] 0 = Some (Some 5)"
    by (rule lookupRP_exact [OF v]) (simp add: z)
  have c: "chartPoint ?S (0, 10) = Some (compositeRecord 0 10 5 (Some 0) None)"
    by (simp add: chartPoint_def cohortLookup_def l r)
  from cohort_zero_is_null [of ?S "(0, 10)" "compositeRecord 0 10 5 (Some 0) None"
      "[(0, 0)]" "[0]", THEN conjunct1] c l
  have "sth_rp (compositeRecord 0 10 5 (Some 0) None) = None" by simp
  then show ?thesis using c l by simp
qed

section \<open>The live tick and the current price\<close>

text \<open>
  C5 (live tick: replace or append), as the code has it.  The guard is
  \<^verbatim>\<open>livePrice && chartData.length > 0\<close>, so a live price of zero counts as none.  For a
  non-empty merged sequence: with no live price, or a live price of 0, the sequence is
  unchanged; with a non-zero live price the candidate (date \<open>now\<close>, price the rounded live
  price) is appended when \<open>now\<close> is more than 12 hours after the last record's date, and
  otherwise replaces the last record, the earlier records staying as they are.
\<close>

theorem reconcile_replace_or_append:
  assumes "records \<noteq> []" "seriesFits S"
  shows "(livePrice = None \<or> livePrice = Some 0 \<longrightarrow>
            reconcile S lastRP lastSTH lastLTH livePrice now records = Some records)
     \<and> (\<forall>p. livePrice = Some p \<and> p \<noteq> 0 \<longrightarrow>
          (\<exists>candidate out.
             livePoint S lastRP lastSTH lastLTH p now = Some candidate
             \<and> reconcile S lastRP lastSTH lastLTH livePrice now records = Some out
             \<and> last out = candidate \<and> date (last out) = now \<and> price (last out) = Math_round p
             \<and> butlast out = (if 12 * 60 * 60 * 1000 < now - date (last records)
                               then records else butlast records)
             \<and> length out = (if 12 * 60 * 60 * 1000 < now - date (last records)
                              then length records + 1 else length records)))"
proof (intro conjI allI impI)
  assume "livePrice = None \<or> livePrice = Some 0"
  then show "reconcile S lastRP lastSTH lastLTH livePrice now records = Some records"
    by (auto simp: reconcile_def)
next
  fix p
  assume p: "livePrice = Some p \<and> p \<noteq> 0"
  obtain candidate where cand: "livePoint S lastRP lastSTH lastLTH p now = Some candidate"
    using livePoint_returns [OF assms(2)] by blast
  then obtain v s l where shape: "candidate = compositeRecord now p v s l"
    using livePoint_shape by blast
  let ?out = "if 12 * 60 * 60 * 1000 < now - date (last records)
              then records @ [candidate] else butlast records @ [candidate]"
  have "reconcile S lastRP lastSTH lastLTH livePrice now records = Some ?out"
    using p cand assms(1) by (simp add: reconcile_def list_update_last)
  moreover have "date candidate = now" "price candidate = Math_round p"
    by (simp_all add: shape compositeRecord_def)
  moreover have "length (butlast records @ [candidate]) = length records"
    using assms(1) by simp
  ultimately show "\<exists>candidate out.
             livePoint S lastRP lastSTH lastLTH p now = Some candidate
             \<and> reconcile S lastRP lastSTH lastLTH livePrice now records = Some out
             \<and> last out = candidate \<and> date (last out) = now \<and> price (last out) = Math_round p
             \<and> butlast out = (if 12 * 60 * 60 * 1000 < now - date (last records)
                               then records else butlast records)
             \<and> length out = (if 12 * 60 * 60 * 1000 < now - date (last records)
                              then length records + 1 else length records)"
    using cand by (intro exI [of _ candidate] exI [of _ ?out]) simp
qed

theorem reconcile_replace_or_append_witness:
  "(\<exists>out. reconcile \<lparr> rpMap = [(0, 5)], rpKeys = [0], sthMap = None, sthKeys = None,
               lthMap = None, lthKeys = None \<rparr> 5 None None (Some 7) 46800000
               [compositeRecord 0 10 5 None None] = Some out
          \<and> length out = 2 \<and> date (last out) = 46800000 \<and> price (last out) = 7
          \<and> butlast out = [compositeRecord 0 10 5 None None])
   \<and> (\<exists>out. reconcile \<lparr> rpMap = [(0, 5)], rpKeys = [0], sthMap = None, sthKeys = None,
               lthMap = None, lthKeys = None \<rparr> 5 None None (Some 7) 3600000
               [compositeRecord 0 10 5 None None] = Some out
          \<and> length out = 1 \<and> date (last out) = 3600000 \<and> price (last out) = 7)"
proof -
  let ?S = "\<lparr> rpMap = [(0, 5)], rpKeys = [0], sthMap = None, sthKeys = None,
               lthMap = None, lthKeys = None \<rparr>"
  let ?c = "compositeRecord 0 10 5 None None"
  have ne: "[?c] \<noteq> []" by simp
  have fits: "seriesFits ?S" by (simp add: seriesFits_def fitsArray_def feedFits_def)
  have d: "date ?c = 0" by (simp add: compositeRecord_def)
  have r: "Math_round 7 = 7" by (simp add: Math_round_def)
  from reconcile_replace_or_append [OF ne fits, of "Some 7" 5 None None 46800000, THEN conjunct2]
  have a: "\<exists>out. reconcile ?S 5 None None (Some 7) 46800000 [?c] = Some out
          \<and> length out = 2 \<and> date (last out) = 46800000 \<and> price (last out) = 7
          \<and> butlast out = [?c]"
    by (auto simp: d r)
  from reconcile_replace_or_append [OF ne fits, of "Some 7" 5 None None 3600000, THEN conjunct2]
  have b: "\<exists>out. reconcile ?S 5 None None (Some 7) 3600000 [?c] = Some out
          \<and> length out = 1 \<and> date (last out) = 3600000 \<and> price (last out) = 7"
    by (auto simp: d r)
  show ?thesis using a b by blast
qed

text \<open>
  A live price of 0 observed 13 hours after the last record: the claim has the candidate
  appended, the code leaves the sequence as it is.
\<close>

theorem reconcile_counterexample:
  "reconcile \<lparr> rpMap = [(0, 5)], rpKeys = [0], sthMap = None, sthKeys = None,
               lthMap = None, lthKeys = None \<rparr> 5 None None (Some 0) 46800000
               [compositeRecord 0 10 5 None None]
     = Some [compositeRecord 0 10 5 None None]
   \<and> 12 * 60 * 60 * 1000 < 46800000 - date (compositeRecord 0 10 5 None None)"
  by (simp add: reconcile_def compositeRecord_def)

lemma chartData_Nil_iff: "chartData S sampled = Some [] \<longleftrightarrow> sampled = []"
proof
  assume "chartData S sampled = Some []"
  then have "length ([] :: CompositeRecord list) = length sampled"
    unfolding chartData_def by (rule those_map_length)
  then show "sampled = []" by simp
next
  assume "sampled = []"
  then show "chartData S sampled = Some []" by (simp add: chartData_def)
qed

text \<open>
  With no filtered historical point there is no record either: inside \<^verbatim>\<open>GET\<close> the third
  source of the current price is never the one that decides.
\<close>

lemma no_history_no_records:
  assumes "GET rpOpt sthRaw lthRaw (Some prices) None now = Some (Inr r)" "windowed prices = []"
  shows "data r = []"
proof -
  from assms(1) obtain rpRaw prices' records where
    hp: "Some prices = Some prices'"
    and cd: "chartData (buildSeries rpRaw sthRaw lthRaw) (resample (windowed prices')) = Some records"
    and rc: "reconcile (buildSeries rpRaw sthRaw lthRaw) (Math_round (snd (last rpRaw)))
           (latestCohort sthRaw) (latestCohort lthRaw) None now records = Some (data r)"
    by (rule GET_Inr_cases)
  have "records = []"
    using cd hp assms(2) by (simp add: resample_Nil chartData_def)
  then show ?thesis using rc by (simp add: reconcile_def)
qed

text \<open>
  C8 (current price).  The expression
  \<^verbatim>\<open>livePrice ?? lastHistorical?.y ?? chartData[chartData.length - 1]?.price ?? 0\<close>, for every
  value of its three sources: the live price when the live fetch returned one, whatever
  the other two are; else the price of the last filtered historical point when there is
  one; else the price of the last record when there are records; else 0.  Whenever the
  gate is passed (and the arrays are ones an engine can hold, the latest valuation
  timestamp a time value) the handler returns a response whose \<^verbatim>\<open>latestPrice\<close> is that
  expression, rounded, on the live price, the last filtered point and the records of the
  merge step.  In the handler the records come from the filtered points, so the third
  source is reached only with no record, and the result is then 0.
\<close>

theorem latestPrice_precedence:
  assumes "100 \<le> length rpRaw" "100 \<le> length prices" "timeOk (fst (last rpRaw))"
    and "fitsArray rpRaw" "feedFits sthRaw" "feedFits lthRaw"
  shows "(\<forall>p h rs. currentPrice (Some p) h rs = p)
    \<and> (\<forall>d rs. currentPrice None (Some d) rs = snd d)
    \<and> (\<forall>rs. rs \<noteq> [] \<longrightarrow> currentPrice None None rs = of_int (price (last rs))
              \<and> Math_round (currentPrice None None rs) = price (last rs))
    \<and> currentPrice None None [] = 0
    \<and> (\<exists>r records.
          GET (Some rpRaw) sthRaw lthRaw (Some prices) livePrice now = Some (Inr r)
        \<and> chartData (buildSeries rpRaw sthRaw lthRaw) (resample (windowed prices)) = Some records
        \<and> latestPrice r
            = Math_round (currentPrice livePrice (lastHistorical (windowed prices)) records)
        \<and> (\<forall>p. livePrice = Some p \<longrightarrow> latestPrice r = Math_round p)
        \<and> (livePrice = None \<and> windowed prices \<noteq> [] \<longrightarrow>
              latestPrice r = Math_round (snd (last (windowed prices))))
        \<and> (livePrice = None \<and> windowed prices = [] \<longrightarrow>
              records = [] \<and> data r = [] \<and> latestPrice r = 0))"
proof -
  let ?S = "buildSeries rpRaw sthRaw lthRaw"
  have fits: "seriesFits ?S" using assms(4,5,6) by (rule buildSeries_fits)
  obtain records where cd: "chartData ?S (resample (windowed prices)) = Some records"
    using chartData_returns [OF fits] by blast
  obtain final where rc: "reconcile ?S (Math_round (snd (last rpRaw))) (latestCohort sthRaw)
      (latestCohort lthRaw) livePrice now records = Some final"
    using reconcile_returns [OF fits] by blast
  let ?r = "\<lparr> data = final,
              latestRP = Math_round (snd (last rpRaw)),
              latestRPDate = fst (last rpRaw),
              latestSTH = latestCohort sthRaw,
              latestLTH = latestCohort lthRaw,
              latestPrice = Math_round (currentPrice livePrice (lastHistorical (windowed prices)) records),
              dataPoints = length final \<rparr>"
  have run: "GET (Some rpRaw) sthRaw lthRaw (Some prices) livePrice now = Some (Inr ?r)"
    using assms(1,2,3) cd rc by (rule GET_success)
  have none: "final = records" if "livePrice = None"
    using rc that by (simp add: reconcile_def)
  have empty: "records = []" if "windowed prices = []"
    using cd that by (simp add: resample_Nil chartData_def)
  have e1: "\<forall>p h rs. currentPrice (Some p) h rs = p"
    and e2: "\<forall>d rs. currentPrice None (Some d) rs = snd d"
    and e3: "\<forall>rs. rs \<noteq> [] \<longrightarrow> currentPrice None None rs = of_int (price (last rs))
              \<and> Math_round (currentPrice None None rs) = price (last rs)"
    and e4: "currentPrice None None [] = 0"
    by (simp_all add: currentPrice_def Math_round_of_int)
  have l: "latestPrice ?r
      = Math_round (currentPrice livePrice (lastHistorical (windowed prices)) records)"
    by simp
  have a: "latestPrice ?r = Math_round p" if "livePrice = Some p" for p
    using that by (simp add: currentPrice_def)
  have b: "latestPrice ?r = Math_round (snd (last (windowed prices)))"
    if "livePrice = None \<and> windowed prices \<noteq> []"
    using that by (simp add: currentPrice_def lastHistorical_def)
  have c: "records = [] \<and> data ?r = [] \<and> latestPrice ?r = 0"
    if "livePrice = None \<and> windowed prices = []"
    using that none empty by (simp add: currentPrice_def lastHistorical_def Math_round_def)
  have "\<exists>r records.
          GET (Some rpRaw) sthRaw lthRaw (Some prices) livePrice now = Some (Inr r)
        \<and> chartData ?S (resample (windowed prices)) = Some records
        \<and> latestPrice r
            = Math_round (currentPrice livePrice (lastHistorical (windowed prices)) records)
        \<and> (\<forall>p. livePrice = Some p \<longrightarrow> latestPrice r = Math_round p)
        \<and> (livePrice = None \<and> windowed prices \<noteq> [] \<longrightarrow>
              latestPrice r = Math_round (snd (last (windowed prices))))
        \<and> (livePrice = None \<and> windowed prices = [] \<longrightarrow>
              records = [] \<and> data r = [] \<and> latestPrice r = 0)"
    using run cd l a b c by blast
  then show ?thesis using e1 e2 e3 e4 by blast
qed

theorem latestPrice_precedence_witness:
  "(\<exists>r. GET (Some (replicate 100 (1577836800000, 20000))) None None
           (Some (replicate 99 (0, 1) @ [(1577836800, 21000.25)])) (Some 30000.5) 0 = Some (Inr r)
         \<and> latestPrice r = 30001)
   \<and> (\<exists>r. GET (Some (replicate 100 (1577836800000, 20000))) None None
           (Some (replicate 99 (0, 1) @ [(1577836800, 21000.25)])) None 0 = Some (Inr r)
         \<and> latestPrice r = 21000)
   \<and> (\<exists>r. GET (Some (replicate 100 (1577836800000, 20000))) None None
           (Some (replicate 100 (0, 1))) None 0 = Some (Inr r)
         \<and> data r = [] \<and> latestPrice r = 0)
   \<and> currentPrice (Some 7) (Some (0, 8)) [compositeRecord 0 10.5 5 None None] = 7
   \<and> currentPrice None (Some (0, 8)) [compositeRecord 0 10.5 5 None None] = 8
   \<and> currentPrice None None [compositeRecord 0 10.5 5 None None] = 11
   \<and> Math_round (currentPrice None None [compositeRecord 0 10.5 5 None None]) = 11
   \<and> currentPrice None None [] = 0"
proof -
  let ?rp = "replicate 100 (1577836800000 :: int, 20000 :: number)"
  let ?hp = "replicate 99 (0 :: int, 1 :: number) @ [(1577836800, 21000.25)]"
  let ?h0 = "replicate 100 (0 :: int, 1 :: number)"
  let ?c = "compositeRecord 0 10.5 5 None None"
  have 1: "100 \<le> length ?rp" and 2: "100 \<le> length ?hp" and 3: "timeOk (fst (last ?rp))"
    and 4: "fitsArray ?rp" and 5: "feedFits (None :: (int \<times> number) list option)"
    and 6: "100 \<le> length ?h0"
    by (simp_all add: timeOk_def fitsArray_def feedFits_def)
  have w: "windowed ?hp = [(1577836800, 21000.25)]" by (simp add: windowed_filter)
  have w0: "windowed ?h0 = []" by (simp add: windowed_filter)
  have r1: "Math_round 30000.5 = 30001" and r2: "Math_round 21000.25 = 21000"
    by (simp_all add: Math_round_def)
  have pc: "price ?c = 11" by (simp add: compositeRecord_def Math_round_def)
  note live = latestPrice_precedence [OF 1 2 3 4 5 5, of "Some 30000.5" 0]
  note hist = latestPrice_precedence [OF 1 2 3 4 5 5, of None 0]
  note bare = latestPrice_precedence [OF 1 6 3 4 5 5, of None 0]
  from live obtain r where g: "GET (Some ?rp) None None (Some ?hp) (Some 30000.5) 0 = Some (Inr r)"
    and p: "\<forall>p. Some 30000.5 = Some p \<longrightarrow> latestPrice r = Math_round p"
    by blast
  from p have "latestPrice r = Math_round 30000.5" by blast
  then have "latestPrice r = 30001" by (simp only: r1)
  with g have a: "\<exists>r. GET (Some ?rp) None None (Some ?hp) (Some 30000.5) 0 = Some (Inr r)
         \<and> latestPrice r = 30001"
    by blast
  from hist obtain r' where g': "GET (Some ?rp) None None (Some ?hp) None 0 = Some (Inr r')"
    and h: "None = (None :: number option) \<and> windowed ?hp \<noteq> [] \<longrightarrow>
          latestPrice r' = Math_round (snd (last (windowed ?hp)))"
    by blast
  from h [unfolded w] have "latestPrice r' = Math_round 21000.25" by simp
  then have "latestPrice r' = 21000" by (simp only: r2)
  with g' have b: "\<exists>r. GET (Some ?rp) None None (Some ?hp) None 0 = Some (Inr r)
         \<and> latestPrice r = 21000"
    by blast
  from bare obtain r'' where g'': "GET (Some ?rp) None None (Some ?h0) None 0 = Some (Inr r'')"
    and z: "None = (None :: number option) \<and> windowed ?h0 = [] \<longrightarrow>
          data r'' = [] \<and> latestPrice r'' = 0"
    by blast
  from z w0 have "data r'' = [] \<and> latestPrice r'' = 0" by blast
  with g'' have c: "\<exists>r. GET (Some ?rp) None None (Some ?h0) None 0 = Some (Inr r)
         \<and> data r = [] \<and> latestPrice r = 0"
    by blast
  from live have e1: "currentPrice (Some 7) (Some (0, 8)) [?c] = 7"
    and e2: "currentPrice None (Some (0, 8)) [?c] = snd (0 :: int, 8 :: number)"
    and e3: "[?c] \<noteq> [] \<longrightarrow> currentPrice None None [?c] = of_int (price (last [?c]))
              \<and> Math_round (currentPrice None None [?c]) = price (last [?c])"
    and e4: "currentPrice None None [] = 0"
    by blast+
  have ne: "[?c] \<noteq> []" and lc: "last [?c] = ?c" by simp_all
  from e3 ne have x: "currentPrice None None [?c] = of_int (price (last [?c]))"
    and y: "Math_round (currentPrice None None [?c]) = price (last [?c])"
    by blast+
  have e3': "currentPrice None None [?c] = 11" unfolding x lc pc by simp
  have e3'': "Math_round (currentPrice None None [?c]) = 11" unfolding y lc pc by simp
  show ?thesis using a b c e1 e2 e3' e3'' e4 by simp
qed

end
